theory Spec2Isabelle
  imports Main "HOL-Library.Multiset"
begin

section \<open>The Sudoku search core of sudAug1925.py\<close>

text \<open>
  The class \<open>SudokuLogic\<close> works on a \<open>Board\<close>, a Python list of nine lists of nine
  integers, 0 standing for an empty cell. The board is modelled as it is written, as a
  list of rows of unbounded integers. Row and column indices are natural numbers; the
  source only ever produces them from \<open>range(9)\<close>. Reading \<open>board[r][c]\<close> outside a
  9x9 board raises \<open>IndexError\<close> in Python, so every statement below is about boards
  satisfying \<open>wf_board\<close>, on which all the reads of the source are in range.
\<close>

type_synonym board = "int list list"
type_synonym moves = "string list"

definition wf_board :: "board \<Rightarrow> bool" where
  "wf_board b = (length b = 9 \<and> list_all (\<lambda>row. length row = 9) b)"

definition in_range :: "board \<Rightarrow> bool" where
  "in_range b = list_all (list_all (\<lambda>v. 0 \<le> v \<and> v \<le> 9)) b"

text \<open>The cells in the order of the nested loops \<open>for r in range(9): for c in range(9)\<close>.\<close>

definition cells :: "(nat \<times> nat) list" where
  "cells = concat (map (\<lambda>r. map (\<lambda>c. (r, c)) [0..<9]) [0..<9])"

text \<open>The assignment \<open>board[r][c] = v\<close>.\<close>

definition set_cell :: "board \<Rightarrow> nat \<Rightarrow> nat \<Rightarrow> int \<Rightarrow> board" where
  "set_cell b r c v = b[r := (b ! r)[c := v]]"

text \<open>\<open>deep_copy\<close> builds a new list holding a copy \<open>row[:]\<close> of every row.\<close>

definition deep_copy :: "board \<Rightarrow> board" where
  "deep_copy b = map (\<lambda>row. row) b"

subsection \<open>Validator\<close>

definition is_valid_move :: "board \<Rightarrow> nat \<Rightarrow> nat \<Rightarrow> int \<Rightarrow> bool" where
  "is_valid_move b r c v =
     (if v = 0 then True
      else if list_ex (\<lambda>x. x \<noteq> c \<and> b ! r ! x = v) [0..<9] then False
      else if list_ex (\<lambda>x. x \<noteq> r \<and> b ! x ! c = v) [0..<9] then False
      else let br = (r div 3) * 3; bc = (c div 3) * 3 in
        if list_ex (\<lambda>i. list_ex (\<lambda>j. (i \<noteq> r \<or> j \<noteq> c) \<and> b ! i ! j = v) [bc..<bc + 3])
             [br..<br + 3]
        then False else True)"

definition find_empty :: "board \<Rightarrow> (nat \<times> nat) option" where
  "find_empty b = find (\<lambda>(i, j). b ! i ! j = 0) cells"

definition column :: "board \<Rightarrow> nat \<Rightarrow> int list" where
  "column b c = map (\<lambda>r. b ! r ! c) [0..<9]"

definition box :: "board \<Rightarrow> nat \<Rightarrow> nat \<Rightarrow> int list" where
  "box b br bc = concat (map (\<lambda>r. map (\<lambda>c. b ! r ! c) [bc..<bc + 3]) [br..<br + 3])"

definition is_complete_and_valid :: "board \<Rightarrow> bool" where
  "is_complete_and_valid b =
     (list_all (\<lambda>r. sort (b ! r) = [1..9]) [0..<9] \<and>
      list_all (\<lambda>c. sort (column b c) = [1..9]) [0..<9] \<and>
      list_all (\<lambda>br. list_all (\<lambda>bc. sort (box b br bc) = [1..9]) [0, 3, 6]) [0, 3, 6])"

subsection \<open>Candidate engine\<close>

definition used_values :: "board \<Rightarrow> nat \<Rightarrow> nat \<Rightarrow> int set" where
  "used_values b r c =
     (let br = (r div 3) * 3; bc = (c div 3) * 3 in
      set (b ! r) \<union> set (column b c) \<union> set (box b br bc))"

definition candidates :: "board \<Rightarrow> nat \<Rightarrow> nat \<Rightarrow> int set" where
  "candidates b r c =
     (if b ! r ! c \<noteq> 0 then {}
      else set (filter (\<lambda>v. v \<notin> used_values b r c) [1..9]))"

subsection \<open>Trace entries\<close>

text \<open>
  The trace is a list of strings built by f-strings such as
  \<open>f"Try r{r+1}c{c+1} = {v}"\<close>; \<open>str_int\<close> is Python's decimal \<open>str\<close> of an integer.
\<close>

definition digit_char :: "nat \<Rightarrow> char" where
  "digit_char n = ''0123456789'' ! n"

fun str_nat :: "nat \<Rightarrow> string" where
  "str_nat n = (if n < 10 then [digit_char n] else str_nat (n div 10) @ [digit_char (n mod 10)])"

declare str_nat.simps [simp del]

definition str_int :: "int \<Rightarrow> string" where
  "str_int i = (if i < 0 then CHR ''-'' # str_nat (nat (- i)) else str_nat (nat i))"

definition cell_name :: "nat \<Rightarrow> nat \<Rightarrow> string" where
  "cell_name r c = ''r'' @ str_nat (r + 1) @ ''c'' @ str_nat (c + 1)"

definition try_msg :: "nat \<Rightarrow> nat \<Rightarrow> int \<Rightarrow> string" where
  "try_msg r c v = ''Try '' @ cell_name r c @ '' = '' @ str_int v"

definition backtrack_msg :: "nat \<Rightarrow> nat \<Rightarrow> int \<Rightarrow> string" where
  "backtrack_msg r c v = ''Backtrack '' @ cell_name r c @ '' (reset from '' @ str_int v @ '' to 0)''"

definition singleton_msg :: "nat \<Rightarrow> nat \<Rightarrow> int \<Rightarrow> string" where
  "singleton_msg r c v = ''Singleton '' @ cell_name r c @ '' = '' @ str_int v"

definition choose_msg :: "nat \<Rightarrow> nat \<Rightarrow> int \<Rightarrow> string" where
  "choose_msg r c v = ''MRV choose '' @ cell_name r c @ '' try '' @ str_int v"

subsection \<open>Strategy A: exhaustive backtracking\<close>

text \<open>
  The nested function \<open>bt\<close> of \<open>solve_bruteforce\<close> mutates the working copy and the
  trace; the model passes both in and returns them with the boolean result.
  \<open>try_values\<close> is the loop \<open>for v in range(1, 10)\<close> from its current value on.
  The recursion is measured by fuel, one unit for each nested call of \<open>bt\<close>; running
  out of fuel is the result \<open>None\<close>.
\<close>

fun bt_bruteforce :: "nat \<Rightarrow> board \<Rightarrow> moves \<Rightarrow> (bool \<times> board \<times> moves) option"
  and try_values ::
    "nat \<Rightarrow> board \<Rightarrow> moves \<Rightarrow> nat \<Rightarrow> nat \<Rightarrow> int list \<Rightarrow> (bool \<times> board \<times> moves) option"
where
  "bt_bruteforce 0 b ms = None"
| "bt_bruteforce (Suc n) b ms =
     (case find_empty b of
        None \<Rightarrow> Some (True, b, ms)
      | Some (r, c) \<Rightarrow> try_values n b ms r c [1..9])"
| "try_values n b ms r c [] = Some (False, b, ms)"
| "try_values n b ms r c (v # vs) =
     (if is_valid_move b r c v then
        (case bt_bruteforce n (set_cell b r c v) (ms @ [try_msg r c v]) of
           None \<Rightarrow> None
         | Some (ok, b', ms') \<Rightarrow>
             if ok then Some (True, b', ms')
             else try_values n (set_cell b' r c 0) (ms' @ [backtrack_msg r c v]) r c vs)
      else try_values n b ms r c vs)"

text \<open>A board has at most 81 empty cells, so 82 nested calls are never exceeded.\<close>

definition max_depth :: nat where
  "max_depth = 82"

definition solve_bruteforce :: "board \<Rightarrow> moves \<Rightarrow> (board option \<times> moves) option" where
  "solve_bruteforce board ms =
     (let b = deep_copy board in
      case bt_bruteforce max_depth b ms of
        None \<Rightarrow> None
      | Some (ok, b', ms') \<Rightarrow> Some (if ok then Some b' else None, ms'))"

subsection \<open>Propagator\<close>

text \<open>
  One iteration of the two nested \<open>for\<close> loops of \<open>propagate_singles\<close> is
  \<open>scan_pass\<close>; \<open>scan_cell\<close> is the loop body, working on the board as the cells
  before have left it. The \<open>while True\<close> loop may in principle run forever, so it is
  a partial function: not returning is the value \<open>None\<close>.
\<close>

definition scan_cell :: "board \<times> moves \<times> bool \<Rightarrow> nat \<times> nat \<Rightarrow> board \<times> moves \<times> bool" where
  "scan_cell st rc =
     (case st of (b, ms, progress) \<Rightarrow>
      case rc of (r, c) \<Rightarrow>
        if b ! r ! c = 0 then
          let cand = candidates b r c in
          if card cand = 1 then
            let val = the_elem cand in
            (set_cell b r c val, ms @ [singleton_msg r c val], True)
          else (b, ms, progress)
        else (b, ms, progress))"

definition scan_pass :: "board \<Rightarrow> moves \<Rightarrow> board \<times> moves \<times> bool" where
  "scan_pass b ms = foldl scan_cell (b, ms, False) cells"

partial_function (option) propagate_loop ::
  "board \<Rightarrow> moves \<Rightarrow> bool \<Rightarrow> (bool \<times> board \<times> moves) option"
where
  "propagate_loop b ms changed =
     (case scan_pass b ms of (b', ms', progress) \<Rightarrow>
        if \<not> progress then Some (changed, b', ms')
        else propagate_loop b' ms' True)"

declare propagate_loop.simps [code]

definition propagate_singles :: "board \<Rightarrow> moves \<Rightarrow> (bool \<times> board \<times> moves) option" where
  "propagate_singles b ms = propagate_loop b ms False"

subsection \<open>Strategy B: MRV-ordered backtracking with propagation\<close>

text \<open>
  \<open>mrv_scan\<close> is the scan of \<open>select_mrv_cell\<close> over the remaining cells with the best
  cell found so far; an empty cell without candidates ends it with \<open>None\<close>.
\<close>

fun mrv_scan ::
  "board \<Rightarrow> (nat \<times> nat) list \<Rightarrow> (nat \<times> nat \<times> int set) option \<Rightarrow> (nat \<times> nat \<times> int set) option"
where
  "mrv_scan b [] best = best"
| "mrv_scan b ((r, c) # rest) best =
     (if b ! r ! c = 0 then
        let cand = candidates b r c in
        if cand = {} then None
        else if (case best of None \<Rightarrow> True | Some (_, _, best_cands) \<Rightarrow> card cand < card best_cands)
        then mrv_scan b rest (Some (r, c, cand))
        else mrv_scan b rest best
      else mrv_scan b rest best)"

definition select_mrv_cell :: "board \<Rightarrow> (nat \<times> nat \<times> int set) option" where
  "select_mrv_cell b = mrv_scan b cells None"

text \<open>
  \<open>try_candidates\<close> is the loop \<open>for v in sorted(cand)\<close> of the nested \<open>bt\<close> from its
  current value on.
\<close>

fun bt_propagation :: "nat \<Rightarrow> board \<Rightarrow> moves \<Rightarrow> (bool \<times> board \<times> moves) option"
  and try_candidates ::
    "nat \<Rightarrow> board \<Rightarrow> moves \<Rightarrow> nat \<Rightarrow> nat \<Rightarrow> int list \<Rightarrow> (bool \<times> board \<times> moves) option"
where
  "bt_propagation 0 b ms = None"
| "bt_propagation (Suc n) b ms =
     (case select_mrv_cell b of
        None \<Rightarrow> Some (find_empty b = None, b, ms)
      | Some (r, c, cand) \<Rightarrow> try_candidates n b ms r c (sorted_list_of_set cand))"
| "try_candidates n b ms r c [] = Some (False, b, ms)"
| "try_candidates n b ms r c (v # vs) =
     (let ms1 = ms @ [choose_msg r c v] in
      if is_valid_move b r c v then
        (case propagate_singles (set_cell b r c v) ms1 of
           None \<Rightarrow> None
         | Some (_, b1, ms2) \<Rightarrow>
             (case bt_propagation n b1 ms2 of
                None \<Rightarrow> None
              | Some (ok, b2, ms3) \<Rightarrow>
                  if ok then Some (True, b2, ms3)
                  else try_candidates n (set_cell b2 r c 0) (ms3 @ [backtrack_msg r c v]) r c vs))
      else try_candidates n b ms1 r c vs)"

definition solve_backtracking_propagation ::
  "board \<Rightarrow> moves \<Rightarrow> (board option \<times> moves) option"
where
  "solve_backtracking_propagation board ms =
     (let b = deep_copy board in
      case propagate_singles b ms of
        None \<Rightarrow> None
      | Some (_, b1, ms1) \<Rightarrow>
          (case bt_propagation max_depth b1 ms1 of
             None \<Rightarrow> None
           | Some (ok, b', ms') \<Rightarrow> Some (if ok then Some b' else None, ms')))"

subsection \<open>Concrete boards\<close>

text \<open>The first entry of \<open>EASY_PUZZLES\<close>, and its completion.\<close>

definition classic_puzzle :: board where
  "classic_puzzle =
     [[5,3,0,0,7,0,0,0,0],
      [6,0,0,1,9,5,0,0,0],
      [0,9,8,0,0,0,0,6,0],
      [8,0,0,0,6,0,0,0,3],
      [4,0,0,8,0,3,0,0,1],
      [7,0,0,0,2,0,0,0,6],
      [0,6,0,0,0,0,2,8,0],
      [0,0,0,4,1,9,0,0,5],
      [0,0,0,0,8,0,0,7,9]]"

definition classic_solution :: board where
  "classic_solution =
     [[5,3,4,6,7,8,9,1,2],
      [6,7,2,1,9,5,3,4,8],
      [1,9,8,3,4,2,5,6,7],
      [8,5,9,7,6,1,4,2,3],
      [4,2,6,8,5,3,7,9,1],
      [7,1,3,9,2,4,8,5,6],
      [9,6,1,5,3,7,2,8,4],
      [2,8,7,4,1,9,6,3,5],
      [3,4,5,2,8,6,1,7,9]]"

text \<open>A board on which the empty cell (0,0) has no candidate left.\<close>

definition dead_end_grid :: board where
  "dead_end_grid =
     [[0,1,2,3,4,5,6,7,8],
      [9,0,0,0,0,0,0,0,0],
      [0,0,0,0,0,0,0,0,0],
      [0,0,0,0,0,0,0,0,0],
      [0,0,0,0,0,0,0,0,0],
      [0,0,0,0,0,0,0,0,0],
      [0,0,0,0,0,0,0,0,0],
      [0,0,0,0,0,0,0,0,0],
      [0,0,0,0,0,0,0,0,0]]"

subsection \<open>Notions used in the statements\<close>

text \<open>
  The number of empty cells; the cells that exclude each other's value (same row, same
  column or same box); and a board whose filled cells are all legal placements in the
  sense of \<open>is_valid_move\<close>.
\<close>

definition count_empty :: "board \<Rightarrow> nat" where
  "count_empty b = length (filter (\<lambda>(i, j). b ! i ! j = 0) cells)"

definition consistent :: "board \<Rightarrow> bool" where
  "consistent b = list_all (\<lambda>(i, j). is_valid_move b i j (b ! i ! j)) cells"

definition peer :: "nat \<Rightarrow> nat \<Rightarrow> nat \<Rightarrow> nat \<Rightarrow> bool" where
  "peer r c i j = ((i \<noteq> r \<or> j \<noteq> c) \<and> (i = r \<or> j = c \<or> (i div 3 = r div 3 \<and> j div 3 = c div 3)))"

text \<open>
  \<open>filled_by b s\<close>: the board \<open>s\<close> holds, at every filled cell of \<open>b\<close>, the value that
  \<open>b\<close> holds. A completion of \<open>b\<close> is a complete and valid board that \<open>b\<close> is filled by.
\<close>

definition filled_by :: "board \<Rightarrow> board \<Rightarrow> bool" where
  "filled_by b s = list_all (\<lambda>(i, j). if b ! i ! j = 0 then True else s ! i ! j = b ! i ! j) cells"

definition has_completion :: "board \<Rightarrow> bool" where
  "has_completion b = (\<exists>s. wf_board s \<and> is_complete_and_valid s \<and> filled_by b s)"

text \<open>
  What a call of either \<open>bt\<close> leaves behind, in terms of the board it started from: on
  success a full board that the start is filled by, consistent and in range when the
  start was; on failure, for the exhaustive strategy, the start itself.
\<close>

definition bt_post :: "board \<Rightarrow> bool \<Rightarrow> board \<Rightarrow> bool" where
  "bt_post b ok b' =
     (if ok then wf_board b' \<and> find_empty b' = None \<and> filled_by b b' \<and>
        (if consistent b then consistent b' else True) \<and> (if in_range b then in_range b' else True)
      else b' = b)"

text \<open>
  \<open>refines b b'\<close>: the solvers only ever move from a board to one that keeps its filled
  cells, its consistency and its range, and has no more empty cells. \<open>pass_inv\<close> is the
  invariant of one scan of the propagator started on \<open>b0\<close> with trace \<open>ms0\<close>.
\<close>

definition refines :: "board \<Rightarrow> board \<Rightarrow> bool" where
  "refines b b' =
     (wf_board b' \<and> filled_by b b' \<and> (if consistent b then consistent b' else True) \<and>
      (if in_range b then in_range b' else True) \<and> count_empty b' \<le> count_empty b)"

definition pass_inv :: "board \<Rightarrow> moves \<Rightarrow> board \<times> moves \<times> bool \<Rightarrow> bool" where
  "pass_inv b0 ms0 st =
     (case st of (b, ms, p) \<Rightarrow>
        refines b0 b \<and> (if p then count_empty b < count_empty b0 else b = b0 \<and> ms = ms0))"

text \<open>A full board that is not a valid Sudoku: every cell holds 5.\<close>

definition fives_grid :: board where
  "fives_grid = replicate 9 (replicate 9 5)"

text \<open>
  A board obtained from \<open>classic_solution\<close> by emptying cells; the board and the trace
  that strategy B holds after it has tried 2 in cell (0,4) and propagated.
\<close>

definition stale_grid :: board where
  "stale_grid =
     [[5,3,4,6,0,8,9,1,0],
      [0,7,0,0,9,5,0,0,0],
      [0,9,8,3,4,0,0,0,0],
      [0,0,9,7,6,0,0,0,0],
      [0,0,0,0,0,0,7,9,0],
      [7,0,0,9,0,0,0,0,0],
      [9,0,0,0,0,7,2,0,0],
      [0,8,0,0,0,0,0,0,5],
      [0,0,5,0,8,6,0,0,9]]"

definition stale_branch_grid :: board where
  "stale_branch_grid =
     [[5,3,4,6,2,8,9,1,7],
      [0,7,0,1,9,5,0,0,0],
      [0,9,8,3,4,0,0,0,0],
      [0,0,9,7,6,0,0,0,0],
      [0,0,0,0,0,0,7,9,0],
      [7,0,0,9,0,0,0,0,0],
      [9,0,0,0,0,7,2,0,0],
      [0,8,0,0,0,0,0,0,5],
      [0,0,5,0,8,6,0,0,9]]"

definition stale_branch_trace :: moves where
  "stale_branch_trace = [''MRV choose r1c5 try 2'', ''Singleton r1c9 = 7'', ''Singleton r2c4 = 1'']"

subsection \<open>The caller's grid as objects in a store\<close>

text \<open>
  Whether a solver changes the grid of its caller depends on which list objects it
  writes to, so this part keeps object identity: a store holds the row lists and the
  outer lists (lists of references to rows) by address, and allocates at \<open>next_addr\<close>.
  \<open>deep_copy_h\<close> is \<open>[row[:] for row in board]\<close>: a new row object for every row and a
  new outer list. \<open>set_cell_h\<close> is the assignment \<open>board[r][c] = v\<close> through the outer
  list at \<open>ga\<close>. The solvers rebind \<open>board\<close> to the copy at entry and only assign
  through it; \<open>solve_bruteforce_h\<close> and \<open>solve_backtracking_propagation_h\<close> run the
  search on the contents of the copy and leave them in its row objects
  (\<open>write_grid\<close>), returning the address of the copy. \<open>old_kept h h'\<close> says that
  every object of \<open>h\<close> is unchanged in \<open>h'\<close>.
\<close>

type_synonym addr = nat

record store =
  rows :: "addr \<rightharpoonup> int list"
  grids :: "addr \<rightharpoonup> addr list"
  next_addr :: addr

definition store_ok :: "store \<Rightarrow> bool" where
  "store_ok h = ((\<forall>a. rows h a \<noteq> None \<longrightarrow> a < next_addr h) \<and>
                 (\<forall>a. grids h a \<noteq> None \<longrightarrow> a < next_addr h))"

definition grid_ok :: "store \<Rightarrow> addr \<Rightarrow> bool" where
  "grid_ok h ga = (case grids h ga of None \<Rightarrow> False
                   | Some as \<Rightarrow> list_all (\<lambda>a. rows h a \<noteq> None) as)"

definition read_grid :: "store \<Rightarrow> addr \<Rightarrow> board" where
  "read_grid h ga = map (\<lambda>a. the (rows h a)) (the (grids h ga))"

definition alloc_row :: "store \<Rightarrow> int list \<Rightarrow> store \<times> addr" where
  "alloc_row h xs =
     (h\<lparr>rows := (rows h)(next_addr h \<mapsto> xs), next_addr := Suc (next_addr h)\<rparr>, next_addr h)"

fun copy_rows :: "store \<Rightarrow> addr list \<Rightarrow> store \<times> addr list" where
  "copy_rows h [] = (h, [])"
| "copy_rows h (a # as) =
     (case alloc_row h (the (rows h a)) of (h1, a') \<Rightarrow>
      case copy_rows h1 as of (h2, as') \<Rightarrow> (h2, a' # as'))"

definition deep_copy_h :: "store \<Rightarrow> addr \<Rightarrow> store \<times> addr" where
  "deep_copy_h h ga =
     (case copy_rows h (the (grids h ga)) of (h1, as') \<Rightarrow>
        (h1\<lparr>grids := (grids h1)(next_addr h1 \<mapsto> as'), next_addr := Suc (next_addr h1)\<rparr>,
         next_addr h1))"

definition set_cell_h :: "store \<Rightarrow> addr \<Rightarrow> nat \<Rightarrow> nat \<Rightarrow> int \<Rightarrow> store" where
  "set_cell_h h ga r c v =
     (let a = the (grids h ga) ! r in h\<lparr>rows := (rows h)(a \<mapsto> (the (rows h a))[c := v])\<rparr>)"

definition write_grid :: "store \<Rightarrow> addr \<Rightarrow> board \<Rightarrow> store" where
  "write_grid h ga b = h\<lparr>rows := rows h ++ map_of (zip (the (grids h ga)) b)\<rparr>"

definition solve_bruteforce_h ::
  "store \<Rightarrow> addr \<Rightarrow> moves \<Rightarrow> (store \<times> addr option \<times> moves) option" where
  "solve_bruteforce_h h ga ms =
     (case deep_copy_h h ga of (h1, wa) \<Rightarrow>
      case bt_bruteforce max_depth (read_grid h1 wa) ms of
        None \<Rightarrow> None
      | Some (ok, b', ms') \<Rightarrow> Some (write_grid h1 wa b', if ok then Some wa else None, ms'))"

definition solve_backtracking_propagation_h ::
  "store \<Rightarrow> addr \<Rightarrow> moves \<Rightarrow> (store \<times> addr option \<times> moves) option" where
  "solve_backtracking_propagation_h h ga ms =
     (case deep_copy_h h ga of (h1, wa) \<Rightarrow>
      case propagate_singles (read_grid h1 wa) ms of
        None \<Rightarrow> None
      | Some (_, b1, ms1) \<Rightarrow>
          (case bt_propagation max_depth b1 ms1 of
             None \<Rightarrow> None
           | Some (ok, b', ms') \<Rightarrow> Some (write_grid h1 wa b', if ok then Some wa else None, ms')))"

definition store_of :: "board \<Rightarrow> store" where
  "store_of g = \<lparr>rows = map_of (zip [0..<9] g), grids = [9 \<mapsto> [0..<9]], next_addr = 10\<rparr>"

definition old_kept :: "store \<Rightarrow> store \<Rightarrow> bool" where
  "old_kept h h' = (store_ok h' \<and> next_addr h \<le> next_addr h' \<and>
     (\<forall>a<next_addr h. rows h' a = rows h a \<and> grids h' a = grids h a))"

section \<open>Properties\<close>

subsection \<open>The completeness checker\<close>

lemma mset_upto_int: "mset [i..j] = mset_set {i..j}"
  by (metis distinct_upto mset_set_set set_upto)

lemma sort_eq_upto_iff: "sort xs = [i..j] \<longleftrightarrow> mset xs = mset_set {i..j}"
proof
  assume "sort xs = [i..j]"
  then have "mset (sort xs) = mset [i..j]" by simp
  then show "mset xs = mset_set {i..j}" by (simp add: mset_upto_int)
next
  assume "mset xs = mset_set {i..j}"
  then have "mset xs = mset [i..j]" by (simp add: mset_upto_int)
  then show "sort xs = [i..j]"
    by (metis sorted_upto properties_for_sort)
qed

lemma row_mset:
  assumes "wf_board b" "r < 9"
  shows "mset (b ! r) = image_mset (\<lambda>c. b ! r ! c) (mset_set {0..<9})"
proof -
  have len: "length (b ! r) = 9"
    using assms by (auto simp: wf_board_def list_all_length)
  have "b ! r = map (\<lambda>c. b ! r ! c) [0..<9]"
    using len by (metis map_nth)
  then have "mset (b ! r) = mset (map (\<lambda>c. b ! r ! c) [0..<9])" by simp
  then show ?thesis by (simp del: upt_rec_numeral)
qed

lemma column_mset: "mset (column b c) = image_mset (\<lambda>r. b ! r ! c) (mset_set {0..<9})"
  by (simp add: column_def del: upt_rec_numeral)

lemma box_mset:
  "mset (box b br bc) =
     image_mset (\<lambda>(r, c). b ! r ! c) (mset_set ({br..<br + 3} \<times> {bc..<bc + 3}))"
proof -
  have "box b br bc = map (\<lambda>(r, c). b ! r ! c) (List.product [br..<br + 3] [bc..<bc + 3])"
    by (simp add: box_def product_concat_map map_concat comp_def del: upt_rec_numeral)
  moreover have "mset (List.product [br..<br + 3] [bc..<bc + 3]) = mset_set ({br..<br + 3} \<times> {bc..<bc + 3})"
    by (metis distinct_product distinct_upt mset_set_set set_product atLeastLessThan_upt)
  ultimately show ?thesis by (simp del: upt_rec_numeral)
qed

lemma all_less_3: "(\<forall>p<3::nat. Q p) \<longleftrightarrow> Q 0 \<and> Q 1 \<and> Q 2"
proof -
  have "{..<3::nat} = {0, 1, 2}" by auto
  then have "(\<forall>p<3::nat. Q p) \<longleftrightarrow> (\<forall>p\<in>{0, 1, 2}. Q p)" by (metis lessThan_iff)
  then show ?thesis by simp
qed

text \<open>
  C3. On a 9x9 board \<open>is_complete_and_valid\<close> is true if and only if the cells of every
  row, of every column and of every 3x3 box, taken as a multiset, are exactly the
  multiset \<open>{1,...,9}\<close>.
\<close>

theorem is_complete_and_valid_iff_multisets:
  assumes "wf_board b"
  shows "is_complete_and_valid b \<longleftrightarrow>
     (\<forall>r<9. image_mset (\<lambda>c. b ! r ! c) (mset_set {0..<9}) = mset_set {1..9}) \<and>
     (\<forall>c<9. image_mset (\<lambda>r. b ! r ! c) (mset_set {0..<9}) = mset_set {1..9}) \<and>
     (\<forall>p<3. \<forall>q<3. image_mset (\<lambda>(r, c). b ! r ! c)
         (mset_set ({3 * p..<3 * p + 3} \<times> {3 * q..<3 * q + 3})) = mset_set {1..9})"
proof -
  have rows: "list_all (\<lambda>r. sort (b ! r) = [1..9]) [0..<9] \<longleftrightarrow>
      (\<forall>r<9. image_mset (\<lambda>c. b ! r ! c) (mset_set {0..<9}) = mset_set {1..9})"
    using assms by (auto simp: list_all_iff sort_eq_upto_iff row_mset simp del: upt_rec_numeral upto_rec_numeral)
  have cols: "list_all (\<lambda>c. sort (column b c) = [1..9]) [0..<9] \<longleftrightarrow>
      (\<forall>c<9. image_mset (\<lambda>r. b ! r ! c) (mset_set {0..<9}) = mset_set {1..9})"
    by (auto simp: list_all_iff sort_eq_upto_iff column_mset simp del: upt_rec_numeral upto_rec_numeral)
  have boxes: "list_all (\<lambda>br. list_all (\<lambda>bc. sort (box b br bc) = [1..9]) [0, 3, 6]) [0, 3, 6] \<longleftrightarrow>
      (\<forall>p<3. \<forall>q<3. image_mset (\<lambda>(r, c). b ! r ! c)
         (mset_set ({3 * p..<3 * p + 3} \<times> {3 * q..<3 * q + 3})) = mset_set {1..9})"
    by (simp add: all_less_3 sort_eq_upto_iff box_mset del: upt_rec_numeral upto_rec_numeral)
  show ?thesis
    unfolding is_complete_and_valid_def rows cols boxes ..
qed

theorem is_complete_and_valid_iff_multisets_witness:
  "wf_board classic_solution \<and> is_complete_and_valid classic_solution \<and>
   image_mset (\<lambda>c. classic_solution ! 4 ! c) (mset_set {0..<9}) = mset_set {1..9} \<and>
   image_mset (\<lambda>r. classic_solution ! r ! 7) (mset_set {0..<9}) = mset_set {1..9}"
proof -
  have wf: "wf_board classic_solution" by code_simp
  have ok: "is_complete_and_valid classic_solution" by code_simp
  from is_complete_and_valid_iff_multisets [OF wf] ok
  have "\<forall>r<9. image_mset (\<lambda>c. classic_solution ! r ! c) (mset_set {0..<9}) = mset_set {1..9}"
    and "\<forall>c<9. image_mset (\<lambda>r. classic_solution ! r ! c) (mset_set {0..<9}) = mset_set {1..9}"
    by blast+
  then show ?thesis using wf ok by simp
qed

subsection \<open>The candidate engine\<close>

lemma wf_board_row_length: "wf_board b \<Longrightarrow> r < 9 \<Longrightarrow> length (b ! r) = 9"
  by (auto simp: wf_board_def list_all_length)

lemma in_row_iff: "wf_board b \<Longrightarrow> r < 9 \<Longrightarrow> v \<in> set (b ! r) \<longleftrightarrow> (\<exists>j<9. b ! r ! j = v)"
  by (auto simp: in_set_conv_nth wf_board_row_length)

lemma in_column_iff: "v \<in> set (column b c) \<longleftrightarrow> (\<exists>i<9. b ! i ! c = v)"
  by (auto simp: column_def simp del: upt_rec_numeral)

lemma in_box_iff:
  "v \<in> set (box b br bc) \<longleftrightarrow>
     (\<exists>i j. br \<le> i \<and> i < br + 3 \<and> bc \<le> j \<and> j < bc + 3 \<and> b ! i ! j = v)"
proof -
  have "v \<in> set (box b br bc) \<longleftrightarrow> (\<exists>i\<in>{br..<br + 3}. \<exists>j\<in>{bc..<bc + 3}. b ! i ! j = v)"
    by (auto simp: box_def simp del: upt_rec_numeral)
  also have "\<dots> \<longleftrightarrow> (\<exists>i j. br \<le> i \<and> i < br + 3 \<and> bc \<le> j \<and> j < bc + 3 \<and> b ! i ! j = v)"
    by (metis atLeastLessThan_iff)
  finally show ?thesis .
qed

lemma box_index_iff: "(r div 3) * 3 \<le> i \<and> i < (r div 3) * 3 + 3 \<longleftrightarrow> i div 3 = r div (3::nat)"
  by auto

lemma in_used_values_iff:
  assumes "wf_board b" "r < 9" "c < 9"
  shows "v \<in> used_values b r c \<longleftrightarrow>
     (\<exists>j<9. b ! r ! j = v) \<or> (\<exists>i<9. b ! i ! c = v) \<or>
     (\<exists>i<9. \<exists>j<9. i div 3 = r div 3 \<and> j div 3 = c div 3 \<and> b ! i ! j = v)"
proof -
  have "(\<exists>i j. (r div 3) * 3 \<le> i \<and> i < (r div 3) * 3 + 3 \<and> (c div 3) * 3 \<le> j \<and> j < (c div 3) * 3 + 3 \<and> b ! i ! j = v)
      \<longleftrightarrow> (\<exists>i<9. \<exists>j<9. i div 3 = r div 3 \<and> j div 3 = c div 3 \<and> b ! i ! j = v)"
    (is "?L \<longleftrightarrow> ?R")
  proof
    assume ?L
    then obtain i j where ij: "(r div 3) * 3 \<le> i \<and> i < (r div 3) * 3 + 3" "(c div 3) * 3 \<le> j \<and> j < (c div 3) * 3 + 3" "b ! i ! j = v"
      by blast
    have "r div 3 \<le> 2" "c div 3 \<le> 2" using assms by simp_all
    then have "i < 9" "j < 9" using ij by linarith+
    moreover have "i div 3 = r div 3" "j div 3 = c div 3" using ij box_index_iff by blast+
    ultimately show ?R using ij(3) by blast
  next
    assume ?R
    then obtain i j where "i div 3 = r div 3" "j div 3 = c div 3" "b ! i ! j = v" by blast
    then show ?L using box_index_iff by blast
  qed
  then show ?thesis
    using assms by (simp add: used_values_def Let_def in_row_iff in_column_iff in_box_iff)
qed

text \<open>
  C4, as the code has it. A filled cell has no candidates, but an empty cell has none
  either when its row, column and box together hold all nine digits (the dead end that
  \<open>select_mrv_cell\<close> tests for): on a 9x9 board \<open>candidates\<close> is empty if and only if
  the cell is filled or every digit from 1 to 9 occurs in its row, column or box.
\<close>

theorem candidates_empty_iff:
  assumes "wf_board b" "r < 9" "c < 9"
  shows "candidates b r c = {} \<longleftrightarrow>
     b ! r ! c \<noteq> 0 \<or>
     (\<forall>v\<in>{1..9}. (\<exists>j<9. b ! r ! j = v) \<or> (\<exists>i<9. b ! i ! c = v) \<or>
        (\<exists>i<9. \<exists>j<9. i div 3 = r div 3 \<and> j div 3 = c div 3 \<and> b ! i ! j = v))"
proof (cases "b ! r ! c = 0")
  case False
  then show ?thesis by (simp add: candidates_def)
next
  case True
  have "candidates b r c = {} \<longleftrightarrow> (\<forall>v\<in>{1..9}. v \<in> used_values b r c)"
    using True by (auto simp: candidates_def filter_empty_conv simp del: upto_rec_numeral)
  then show ?thesis
    using True in_used_values_iff [OF assms] by simp
qed

text \<open>
  C4 as stated fails: on \<open>dead_end_grid\<close> the cell (0,0) is empty and has no candidates.
\<close>

theorem candidates_empty_counterexample:
  "wf_board dead_end_grid \<and> in_range dead_end_grid \<and>
   \<not> (candidates dead_end_grid 0 0 = {} \<longleftrightarrow> dead_end_grid ! 0 ! 0 \<noteq> 0)"
  by code_simp

theorem candidates_empty_iff_witness:
  "wf_board dead_end_grid \<and> candidates dead_end_grid 0 0 = {} \<and> candidates dead_end_grid 1 1 \<noteq> {}"
proof -
  have wf: "wf_board dead_end_grid" by code_simp
  have e: "candidates dead_end_grid 0 0 = {}" "candidates dead_end_grid 1 1 \<noteq> {}" by code_simp+
  from candidates_empty_iff [OF wf, of 0 0] e wf show ?thesis by simp
qed

subsection \<open>Boards, empty cells and legality\<close>

lemma cells_product: "cells = List.product [0..<9] [0..<9]"
  by (simp add: cells_def product_concat_map del: upt_rec_numeral)

lemma cells_iff: "(i, j) \<in> set cells \<longleftrightarrow> i < 9 \<and> j < 9"
  by (simp add: cells_product del: upt_rec_numeral)

lemma distinct_cells: "distinct cells"
  unfolding cells_product by (rule distinct_product) (rule distinct_upt)+

lemma length_cells: "length cells = 81"
  unfolding cells_product by (simp add: length_product del: upt_rec_numeral)

lemma wf_set_cell:
  assumes "wf_board b"
  shows "wf_board (set_cell b r c v)"
proof (cases "r < length b")
  case True
  then show ?thesis
    using assms by (auto simp: wf_board_def set_cell_def list_all_length nth_list_update)
next
  case False
  then have "set_cell b r c v = b"
    unfolding set_cell_def by (meson list_update_beyond not_less)
  then show ?thesis using assms by simp
qed

lemma nth_set_cell:
  "wf_board b \<Longrightarrow> r < 9 \<Longrightarrow> c < 9 \<Longrightarrow> i < 9 \<Longrightarrow> j < 9 \<Longrightarrow>
   set_cell b r c v ! i ! j = (if i = r \<and> j = c then v else b ! i ! j)"
  by (auto simp: wf_board_def set_cell_def list_all_length nth_list_update)

lemma set_cell_same:
  assumes "wf_board b" "r < 9" "c < 9" "b ! r ! c = v"
  shows "set_cell b r c v = b"
proof -
  have "(b ! r)[c := v] = b ! r" using assms(4) by (metis list_update_id)
  then show ?thesis by (simp add: set_cell_def)
qed

lemma board_eqI:
  assumes "wf_board a" "wf_board b" "\<And>i j. i < 9 \<Longrightarrow> j < 9 \<Longrightarrow> a ! i ! j = b ! i ! j"
  shows "a = b"
proof (rule nth_equalityI)
  show "length a = length b" using assms by (simp add: wf_board_def)
  fix i assume "i < length a"
  then have i: "i < 9" using assms by (simp add: wf_board_def)
  show "a ! i = b ! i"
    using assms i by (intro nth_equalityI) (simp_all add: wf_board_row_length)
qed

lemma find_empty_None_iff: "find_empty b = None \<longleftrightarrow> (\<forall>i<9. \<forall>j<9. b ! i ! j \<noteq> 0)"
  by (auto simp: find_empty_def find_None_iff cells_iff)

lemma find_empty_Some:
  assumes "find_empty b = Some (r, c)"
  shows "r < 9 \<and> c < 9 \<and> b ! r ! c = 0"
proof -
  from assms obtain k where "k < length cells" "cells ! k = (r, c)" "b ! r ! c = 0"
    by (auto simp: find_empty_def find_Some_iff)
  then show ?thesis using cells_iff nth_mem by (metis)
qed

lemma count_empty_le: "count_empty b \<le> 81"
  unfolding count_empty_def using length_filter_le [of _ cells] by (simp add: length_cells)

lemma count_empty_zero_iff: "count_empty b = 0 \<longleftrightarrow> find_empty b = None"
  by (auto simp: count_empty_def find_empty_def find_None_iff filter_empty_conv)

lemma count_empty_set_cell:
  assumes "wf_board b" "r < 9" "c < 9" "b ! r ! c = 0" "v \<noteq> 0"
  shows "count_empty (set_cell b r c v) < count_empty b"
proof -
  let ?P = "\<lambda>(i, j). b ! i ! j = 0"
  let ?Q = "\<lambda>(i, j). set_cell b r c v ! i ! j = 0"
  have sub: "set (filter ?Q cells) \<subset> set (filter ?P cells)"
  proof
    show "set (filter ?Q cells) \<subseteq> set (filter ?P cells)"
      using assms by (auto simp: cells_iff nth_set_cell split: if_splits)
    have "(r, c) \<in> set (filter ?P cells)" using assms by (simp add: cells_iff)
    moreover have "(r, c) \<notin> set (filter ?Q cells)" using assms by (simp add: cells_iff nth_set_cell)
    ultimately show "set (filter ?Q cells) \<noteq> set (filter ?P cells)" by blast
  qed
  have "card (set (filter ?Q cells)) < card (set (filter ?P cells))"
    by (rule psubset_card_mono [OF _ sub]) simp
  moreover have "card (set (filter ?Q cells)) = length (filter ?Q cells)"
    by (rule distinct_card) (rule distinct_filter [OF distinct_cells])
  moreover have "card (set (filter ?P cells)) = length (filter ?P cells)"
    by (rule distinct_card) (rule distinct_filter [OF distinct_cells])
  ultimately show ?thesis
    unfolding count_empty_def by linarith
qed

lemma count_empty_reset:
  assumes "wf_board b" "r < 9" "c < 9"
  shows "count_empty (set_cell b r c 0) \<le> Suc (count_empty b)"
proof -
  let ?P = "\<lambda>(i, j). b ! i ! j = 0"
  let ?Q = "\<lambda>(i, j). set_cell b r c 0 ! i ! j = 0"
  have "set (filter ?Q cells) \<subseteq> insert (r, c) (set (filter ?P cells))"
    using assms by (auto simp: cells_iff nth_set_cell split: if_splits)
  then have "card (set (filter ?Q cells)) \<le> card (insert (r, c) (set (filter ?P cells)))"
    by (intro card_mono) simp_all
  also have "\<dots> \<le> Suc (card (set (filter ?P cells)))"
    by (simp add: card_insert_if)
  finally have "card (set (filter ?Q cells)) \<le> Suc (card (set (filter ?P cells)))" .
  moreover have "card (set (filter ?Q cells)) = length (filter ?Q cells)"
    by (rule distinct_card) (rule distinct_filter [OF distinct_cells])
  moreover have "card (set (filter ?P cells)) = length (filter ?P cells)"
    by (rule distinct_card) (rule distinct_filter [OF distinct_cells])
  ultimately show ?thesis
    unfolding count_empty_def by linarith
qed

lemma is_valid_move_iff:
  assumes "r < 9" "c < 9"
  shows "is_valid_move b r c v \<longleftrightarrow> v = 0 \<or> (\<forall>i<9. \<forall>j<9. peer r c i j \<longrightarrow> b ! i ! j \<noteq> v)"
proof (cases "v = 0")
  case True
  then show ?thesis by (simp add: is_valid_move_def)
next
  case False
  have rc: "r div 3 \<le> 2" "c div 3 \<le> 2" using assms by simp_all
  have boxb: "\<And>i. (r div 3) * 3 \<le> i \<and> i < (r div 3) * 3 + 3 \<longleftrightarrow> i < 9 \<and> i div 3 = r div 3"
    "\<And>j. (c div 3) * 3 \<le> j \<and> j < (c div 3) * 3 + 3 \<longleftrightarrow> j < 9 \<and> j div 3 = c div 3"
    using rc by auto
  have A: "list_ex (\<lambda>x. x \<noteq> c \<and> b ! r ! x = v) [0..<9] \<longleftrightarrow> (\<exists>x<9. x \<noteq> c \<and> b ! r ! x = v)"
    by (auto simp: list_ex_iff simp del: upt_rec_numeral)
  have B: "list_ex (\<lambda>x. x \<noteq> r \<and> b ! x ! c = v) [0..<9] \<longleftrightarrow> (\<exists>x<9. x \<noteq> r \<and> b ! x ! c = v)"
    by (auto simp: list_ex_iff simp del: upt_rec_numeral)
  have C: "list_ex (\<lambda>i. list_ex (\<lambda>j. (i \<noteq> r \<or> j \<noteq> c) \<and> b ! i ! j = v) [bc..<bc + 3]) [br..<br + 3] \<longleftrightarrow>
      (\<exists>i j. (br \<le> i \<and> i < br + 3) \<and> (bc \<le> j \<and> j < bc + 3) \<and> (i \<noteq> r \<or> j \<noteq> c) \<and> b ! i ! j = v)" for br bc
    unfolding list_ex_iff set_upt Bex_def atLeastLessThan_iff by blast
  have "is_valid_move b r c v \<longleftrightarrow>
     \<not> (\<exists>x<9. x \<noteq> c \<and> b ! r ! x = v) \<and> \<not> (\<exists>x<9. x \<noteq> r \<and> b ! x ! c = v) \<and>
     \<not> (\<exists>i j. ((r div 3) * 3 \<le> i \<and> i < (r div 3) * 3 + 3) \<and> ((c div 3) * 3 \<le> j \<and> j < (c div 3) * 3 + 3)
            \<and> (i \<noteq> r \<or> j \<noteq> c) \<and> b ! i ! j = v)"
    using False unfolding is_valid_move_def Let_def A B C by (simp; blast)
  also have "\<dots> \<longleftrightarrow> (\<forall>i<9. \<forall>j<9. peer r c i j \<longrightarrow> b ! i ! j \<noteq> v)"
    unfolding boxb peer_def using assms by blast
  finally show ?thesis using False by simp
qed

lemma peer_sym: "peer r c i j \<Longrightarrow> peer i j r c"
  by (auto simp: peer_def)

lemma consistent_iff:
  "consistent b \<longleftrightarrow>
     (\<forall>i<9. \<forall>j<9. \<forall>k<9. \<forall>l<9. peer i j k l \<longrightarrow> b ! i ! j \<noteq> 0 \<longrightarrow> b ! k ! l \<noteq> b ! i ! j)"
proof -
  have "consistent b \<longleftrightarrow> (\<forall>i<9. \<forall>j<9. is_valid_move b i j (b ! i ! j))"
    by (auto simp: consistent_def list_all_iff cells_iff)
  also have "\<dots> \<longleftrightarrow> (\<forall>i<9. \<forall>j<9. b ! i ! j = 0 \<or> (\<forall>k<9. \<forall>l<9. peer i j k l \<longrightarrow> b ! k ! l \<noteq> b ! i ! j))"
    by (simp add: is_valid_move_iff cong: conj_cong)
  also have "\<dots> \<longleftrightarrow> (\<forall>i<9. \<forall>j<9. \<forall>k<9. \<forall>l<9. peer i j k l \<longrightarrow> b ! i ! j \<noteq> 0 \<longrightarrow> b ! k ! l \<noteq> b ! i ! j)"
    by blast
  finally show ?thesis .
qed

lemma consistent_set_cell:
  assumes wf: "wf_board b" and rc: "r < 9" "c < 9"
    and con: "consistent b" and ok: "is_valid_move b r c v"
  shows "consistent (set_cell b r c v)"
  unfolding consistent_iff
proof (intro allI impI)
  fix i j k l
  assume b: "i < 9" "j < 9" "k < 9" "l < 9" and p: "peer i j k l"
    and nz: "set_cell b r c v ! i ! j \<noteq> 0"
  have ne: "(k, l) \<noteq> (i, j)" using p by (auto simp: peer_def)
  show "set_cell b r c v ! k ! l \<noteq> set_cell b r c v ! i ! j"
  proof (cases "i = r \<and> j = c")
    case True
    then have "v \<noteq> 0" using nz wf rc by (simp add: nth_set_cell)
    then have "b ! k ! l \<noteq> v"
      using ok p b True by (simp add: is_valid_move_iff)
    then show ?thesis using True ne wf rc b by (auto simp: nth_set_cell)
  next
    case False
    then have ij: "set_cell b r c v ! i ! j = b ! i ! j" using wf rc b by (auto simp: nth_set_cell)
    show ?thesis
    proof (cases "k = r \<and> l = c")
      case True
      have "peer r c i j" using p True peer_sym by blast
      moreover have "b ! i ! j \<noteq> 0" using nz ij by simp
      ultimately have "b ! i ! j \<noteq> v"
        using ok b rc by (auto simp: is_valid_move_iff)
      then show ?thesis using True ij wf rc by (simp add: nth_set_cell)
    next
      case False
      then have "set_cell b r c v ! k ! l = b ! k ! l" using wf rc b by (auto simp: nth_set_cell)
      then show ?thesis using con p b nz ij unfolding consistent_iff by metis
    qed
  qed
qed

subsection \<open>Complete and valid boards\<close>

lemma filled_by_iff: "filled_by b s \<longleftrightarrow> (\<forall>i<9. \<forall>j<9. b ! i ! j \<noteq> 0 \<longrightarrow> s ! i ! j = b ! i ! j)"
  by (auto simp: filled_by_def list_all_iff cells_iff)

lemma in_range_iff:
  assumes "wf_board b"
  shows "in_range b \<longleftrightarrow> (\<forall>i<9. \<forall>j<9. 0 \<le> b ! i ! j \<and> b ! i ! j \<le> 9)"
  using assms by (auto simp: in_range_def wf_board_def list_all_length)

lemma sort_nine:
  assumes "distinct xs" "length xs = 9" "set xs \<subseteq> {1..9::int}"
  shows "sort xs = [1..9]"
proof -
  have "card (set xs) = 9" using assms by (simp add: distinct_card)
  moreover have "card {1..9::int} = 9" by simp
  ultimately have "set xs = {1..9}"
    using assms(3) by (metis card_subset_eq finite_atLeastAtMost_int)
  then have "mset xs = mset_set {1..9}"
    using assms(1) by (metis mset_set_set)
  then show ?thesis by (simp only: sort_eq_upto_iff)
qed

lemma sort_nine_elim:
  assumes "sort xs = [1..9::int]"
  shows "distinct xs \<and> length xs = 9 \<and> set xs = {1..9}"
proof -
  have m: "mset xs = mset [1..9::int]" using assms by (metis mset_sort)
  then have "distinct xs" by (metis mset_eq_imp_distinct_iff distinct_upto)
  moreover have "length xs = 9"
  proof -
    have "length xs = length [1..9::int]" using m by (metis size_mset)
    then show ?thesis by simp
  qed
  moreover have "set xs = {1..9}" using m by (metis mset_eq_setD set_upto)
  ultimately show ?thesis by blast
qed

lemma box_as_map:
  "box b br bc = map (\<lambda>(r, c). b ! r ! c) (List.product [br..<br + 3] [bc..<bc + 3])"
  by (simp add: box_def product_concat_map map_concat comp_def del: upt_rec_numeral)

lemma box_start: "r < 9 \<Longrightarrow> (r div 3) * 3 = 0 \<or> (r div 3) * 3 = 3 \<or> (r div 3) * 3 = (6::nat)"
  by presburger

lemma is_complete_and_valid_iff:
  "is_complete_and_valid b \<longleftrightarrow>
     (\<forall>r<9. sort (b ! r) = [1..9]) \<and> (\<forall>c<9. sort (column b c) = [1..9]) \<and>
     (\<forall>p<3. \<forall>q<3. sort (box b (3 * p) (3 * q)) = [1..9])"
  by (simp add: is_complete_and_valid_def list_all_iff all_less_3 del: upt_rec_numeral upto_rec_numeral)
    (auto simp del: upt_rec_numeral upto_rec_numeral)


lemma box_cells_iff:
  "(i, j) \<in> set (List.product [3 * p..<3 * p + 3] [3 * q..<3 * q + 3]) \<longleftrightarrow>
     i div 3 = p \<and> j div 3 = q"
proof -
  have "\<And>a n::nat. (3 * n \<le> a \<and> a < 3 * n + 3) \<longleftrightarrow> a div 3 = n" by presburger
  then show ?thesis by (simp del: upt_rec_numeral)
qed

lemma valid_intro:
  assumes wf: "wf_board b" and con: "consistent b"
    and rng: "\<forall>i<9. \<forall>j<9. 1 \<le> b ! i ! j \<and> b ! i ! j \<le> 9"
  shows "is_complete_and_valid b"
proof -
  have nz: "\<And>i j. i < 9 \<Longrightarrow> j < 9 \<Longrightarrow> b ! i ! j \<noteq> 0" using rng by force
  have diff: "\<And>i j k l. i < 9 \<Longrightarrow> j < 9 \<Longrightarrow> k < 9 \<Longrightarrow> l < 9 \<Longrightarrow> peer i j k l \<Longrightarrow> b ! k ! l \<noteq> b ! i ! j"
    using con nz unfolding consistent_iff by blast
  have rows: "sort (b ! r) = [1..9]" if r: "r < 9" for r
  proof (rule sort_nine)
    show len: "length (b ! r) = 9" using wf r by (rule wf_board_row_length)
    show "distinct (b ! r)"
      unfolding distinct_conv_nth len
    proof (intro allI impI)
      fix i j :: nat assume "i < 9" "j < 9" "i \<noteq> j"
      then show "b ! r ! i \<noteq> b ! r ! j" using diff [of r j r i] r by (simp add: peer_def)
    qed
    show "set (b ! r) \<subseteq> {1..9}"
      using rng r by (auto simp: in_set_conv_nth len)
  qed
  have cols: "sort (column b c) = [1..9]" if c: "c < 9" for c
  proof (rule sort_nine)
    show len: "length (column b c) = 9" by (simp add: column_def)
    have nth: "\<And>i. i < 9 \<Longrightarrow> column b c ! i = b ! i ! c"
      unfolding column_def by (simp del: upt_rec_numeral)
    show "distinct (column b c)"
      unfolding distinct_conv_nth len
    proof (intro allI impI)
      fix i j :: nat assume "i < 9" "j < 9" "i \<noteq> j"
      then show "column b c ! i \<noteq> column b c ! j" using diff [of j c i c] c by (simp add: peer_def nth)
    qed
    show "set (column b c) \<subseteq> {1..9}"
      using rng c by (auto simp: in_column_iff)
  qed
  have boxes: "sort (box b (3 * p) (3 * q)) = [1..9]" if pq: "p < 3" "q < 3" for p q
  proof (rule sort_nine)
    let ?f = "\<lambda>(r, c). b ! r ! c"
    let ?ps = "List.product [3 * p..<3 * p + 3] [3 * q..<3 * q + 3]"
    have mem: "i < 9 \<and> j < 9 \<and> i div 3 = p \<and> j div 3 = q" if "(i, j) \<in> set ?ps" for i j
    proof -
      have "i div 3 = p" "j div 3 = q" using that unfolding box_cells_iff by blast+
      then show ?thesis using pq by auto
    qed
    show "length (box b (3 * p) (3 * q)) = 9"
      unfolding box_as_map by (simp add: length_product del: upt_rec_numeral)
    have "inj_on ?f (set ?ps)"
    proof (rule inj_onI)
      fix x y assume x: "x \<in> set ?ps" and y: "y \<in> set ?ps" and eq: "?f x = ?f y"
      obtain i j k l where xy: "x = (i, j)" "y = (k, l)" by (metis surj_pair)
      show "x = y"
      proof (rule ccontr)
        assume ne: "x \<noteq> y"
        have ij: "i < 9 \<and> j < 9 \<and> i div 3 = p \<and> j div 3 = q" using mem x xy by blast
        have kl: "k < 9 \<and> l < 9 \<and> k div 3 = p \<and> l div 3 = q" using mem y xy by blast
        have "peer i j k l" using ne xy ij kl by (auto simp: peer_def)
        then have "b ! k ! l \<noteq> b ! i ! j" using diff ij kl by blast
        then show False using eq xy by simp
      qed
    qed
    moreover have "distinct ?ps" by (rule distinct_product) (rule distinct_upt)+
    ultimately show "distinct (box b (3 * p) (3 * q))"
      unfolding box_as_map by (simp only: distinct_map)
    show "set (box b (3 * p) (3 * q)) \<subseteq> {1..9}"
    proof
      fix v assume "v \<in> set (box b (3 * p) (3 * q))"
      then obtain x where x: "x \<in> set ?ps" "v = ?f x"
        unfolding box_as_map set_map by blast
      obtain i j where xy: "x = (i, j)" by (metis surj_pair)
      have "i < 9 \<and> j < 9" using mem x xy by blast
      then show "v \<in> {1..9}" using rng x xy by simp
    qed
  qed
  show ?thesis unfolding is_complete_and_valid_iff using rows cols boxes by blast
qed

lemma valid_elim:
  assumes wf: "wf_board b" and ok: "is_complete_and_valid b"
  shows "consistent b \<and> (\<forall>i<9. \<forall>j<9. 1 \<le> b ! i ! j \<and> b ! i ! j \<le> 9)"
proof -
  have rows: "\<And>r. r < 9 \<Longrightarrow> sort (b ! r) = [1..9]"
    and cols: "\<And>c. c < 9 \<Longrightarrow> sort (column b c) = [1..9]"
    and boxes: "\<And>p q. p < 3 \<Longrightarrow> q < 3 \<Longrightarrow> sort (box b (3 * p) (3 * q)) = [1..9]"
    using ok unfolding is_complete_and_valid_iff by blast+
  have rng: "1 \<le> b ! i ! j \<and> b ! i ! j \<le> 9" if "i < 9" "j < 9" for i j
  proof -
    have "b ! i ! j \<in> set (b ! i)" using wf that by (simp add: wf_board_row_length)
    moreover have "set (b ! i) = {1..9}" using sort_nine_elim [OF rows [OF that(1)]] by blast
    ultimately have "b ! i ! j \<in> {1..9}" by simp
    then show ?thesis by simp
  qed
  have diff: "b ! k ! l \<noteq> b ! i ! j"
    if b: "i < 9" "j < 9" "k < 9" "l < 9" and p: "peer i j k l" for i j k l
  proof -
    have "(i = k \<and> j \<noteq> l) \<or> (j = l \<and> i \<noteq> k) \<or>
        (i div 3 = k div 3 \<and> j div 3 = l div 3 \<and> (i, j) \<noteq> (k, l))"
      using p unfolding peer_def by auto
    then consider (row) "i = k" "j \<noteq> l" | (col) "j = l" "i \<noteq> k"
      | (box) "i div 3 = k div 3" "j div 3 = l div 3" "(i, j) \<noteq> (k, l)"
      by blast
    then show ?thesis
    proof cases
      case row
      have "distinct (b ! i)" "length (b ! i) = 9"
        using sort_nine_elim [OF rows [OF b(1)]] by blast+
      then show ?thesis using row b by (simp add: nth_eq_iff_index_eq)
    next
      case col
      have d: "distinct (column b j)" "length (column b j) = 9"
        using sort_nine_elim [OF cols [OF b(2)]] by blast+
      have nth: "\<And>i. i < 9 \<Longrightarrow> column b j ! i = b ! i ! j"
        unfolding column_def by (simp del: upt_rec_numeral)
      have "column b j ! k \<noteq> column b j ! i" using d col b by (simp add: nth_eq_iff_index_eq)
      then show ?thesis using col b nth by simp
    next
      case box
      let ?p = "i div 3" and ?q = "j div 3"
      let ?f = "\<lambda>(r, c). b ! r ! c"
      let ?ps = "List.product [3 * ?p..<3 * ?p + 3] [3 * ?q..<3 * ?q + 3]"
      have pq: "?p < 3" "?q < 3" using b by simp_all
      have "distinct (map ?f ?ps)"
        using sort_nine_elim [OF boxes [OF pq]] unfolding box_as_map by blast
      then have inj: "inj_on ?f (set ?ps)" by (simp only: distinct_map)
      have "(i, j) \<in> set ?ps" unfolding box_cells_iff by simp
      moreover have "(k, l) \<in> set ?ps" unfolding box_cells_iff using box by simp
      ultimately have "?f (i, j) \<noteq> ?f (k, l)" using inj box(3) by (meson inj_onD)
      then show ?thesis by simp
    qed
  qed
  have "consistent b"
    unfolding consistent_iff
  proof (intro allI impI)
    fix i j k l :: nat
    assume "i < 9" "j < 9" "k < 9" "l < 9" "peer i j k l"
    then show "b ! k ! l \<noteq> b ! i ! j" by (rule diff)
  qed
  moreover have "\<forall>i<9. \<forall>j<9. 1 \<le> b ! i ! j \<and> b ! i ! j \<le> 9"
    using rng by blast
  ultimately show ?thesis by (rule conjI)
qed

subsection \<open>Strategy A: what the exhaustive search returns\<close>

lemma set_cell_reset:
  assumes "wf_board b" "r < 9" "c < 9" "b ! r ! c = 0"
  shows "set_cell (set_cell b r c v) r c 0 = b"
proof (rule board_eqI)
  show "wf_board (set_cell (set_cell b r c v) r c 0)" using assms(1) by (intro wf_set_cell)
  show "wf_board b" by fact
  fix i j :: nat assume "i < 9" "j < 9"
  then show "set_cell (set_cell b r c v) r c 0 ! i ! j = b ! i ! j"
    using assms by (simp add: nth_set_cell wf_set_cell)
qed

lemma filled_by_refl: "filled_by b b"
  by (simp add: filled_by_iff)

lemma filled_by_trans: "filled_by a b \<Longrightarrow> filled_by b c \<Longrightarrow> filled_by a c"
  unfolding filled_by_iff by metis

lemma filled_by_set_cell:
  assumes "wf_board b" "r < 9" "c < 9" "b ! r ! c = 0"
  shows "filled_by b (set_cell b r c v)"
  unfolding filled_by_iff using assms by (auto simp: nth_set_cell)

lemma in_range_set_cell:
  assumes "wf_board b" "r < 9" "c < 9" "in_range b" "0 \<le> v" "v \<le> 9"
  shows "in_range (set_cell b r c v)"
proof -
  have "wf_board (set_cell b r c v)" using assms(1) by (rule wf_set_cell)
  then show ?thesis
    using assms by (simp add: in_range_iff nth_set_cell)
qed

lemma bt_post_step:
  assumes wf: "wf_board b" and rc: "r < 9" "c < 9" and e: "b ! r ! c = 0"
    and v: "1 \<le> v" "v \<le> 9" and ok: "is_valid_move b r c v"
    and post: "bt_post (set_cell b r c v) True b'"
  shows "bt_post b True b'"
proof -
  let ?B = "set_cell b r c v"
  have p: "wf_board b'" "find_empty b' = None" "filled_by ?B b'"
    "consistent ?B \<Longrightarrow> consistent b'" "in_range ?B \<Longrightarrow> in_range b'"
    using post by (simp_all add: bt_post_def split: if_splits)
  have "filled_by b b'" using filled_by_set_cell [OF wf rc e] p(3) by (rule filled_by_trans)
  moreover have "consistent b'" if "consistent b"
    using p(4) consistent_set_cell [OF wf rc that ok] by blast
  moreover have "in_range b'" if "in_range b"
    using p(5) in_range_set_cell [OF wf rc that] v by simp
  ultimately show ?thesis using p(1,2) by (simp add: bt_post_def)
qed

lemma bruteforce_post:
  "wf_board b \<Longrightarrow> bt_bruteforce n b ms = Some (ok, b', ms') \<Longrightarrow> bt_post b ok b'"
  "wf_board b \<Longrightarrow> r < 9 \<Longrightarrow> c < 9 \<Longrightarrow> b ! r ! c = 0 \<Longrightarrow> set vs \<subseteq> {1..9} \<Longrightarrow>
   try_values n b ms r c vs = Some (ok, b', ms') \<Longrightarrow> bt_post b ok b'"
proof (induction n b ms and n b ms r c vs arbitrary: ok b' ms' and ok b' ms'
    rule: bt_bruteforce_try_values.induct)
  case (1 b ms)
  then show ?case by simp
next
  case (2 n b ms)
  show ?case
  proof (cases "find_empty b")
    case None
    then have "ok" "b' = b" using "2.prems" by simp_all
    then show ?thesis using None "2.prems"(1) by (simp add: bt_post_def filled_by_refl)
  next
    case (Some rc)
    obtain r c where rc: "rc = (r, c)" by (metis surj_pair)
    have e: "r < 9 \<and> c < 9 \<and> b ! r ! c = 0" using Some rc find_empty_Some by blast
    have run: "try_values n b ms r c [1..9] = Some (ok, b', ms')"
      using "2.prems"(2) Some rc by simp
    show ?thesis
      using "2.IH" [OF Some rc [symmetric] "2.prems"(1) _ _ _ _ run] e by simp
  qed
next
  case (3 n b ms r c)
  then show ?case by (simp add: bt_post_def)
next
  case (4 n b ms r c v vs)
  have v: "1 \<le> v" "v \<le> 9" and vs: "set vs \<subseteq> {1..9}" using "4.prems"(5) by auto
  note wf = "4.prems"(1) and rc = "4.prems"(2,3) and e = "4.prems"(4)
  let ?B = "set_cell b r c v"
  show ?case
  proof (cases "is_valid_move b r c v")
    case False
    then have "try_values n b ms r c vs = Some (ok, b', ms')" using "4.prems"(6) by simp
    then show ?thesis using "4.IH"(3) [OF False wf rc e vs] by blast
  next
    case True
    obtain ok1 b1 ms1 where r1: "bt_bruteforce n ?B (ms @ [try_msg r c v]) = Some (ok1, b1, ms1)"
      using "4.prems"(6) True by (auto split: option.splits)
    have p1: "bt_post ?B ok1 b1"
      using "4.IH"(1) [OF True wf_set_cell [OF wf] r1] .
    show ?thesis
    proof (cases ok1)
      case True
      then have "ok" "b' = b1" using "4.prems"(6) \<open>is_valid_move b r c v\<close> r1 by simp_all
      then show ?thesis
        using bt_post_step [OF wf rc e v \<open>is_valid_move b r c v\<close>] p1 True by simp
    next
      case False
      then have b1: "b1 = ?B" using p1 by (simp add: bt_post_def)
      have undo: "set_cell b1 r c 0 = b" unfolding b1 using wf rc e by (rule set_cell_reset)
      have "try_values n (set_cell b1 r c 0) (ms1 @ [backtrack_msg r c v]) r c vs = Some (ok, b', ms')"
        using "4.prems"(6) \<open>is_valid_move b r c v\<close> r1 False by simp
      from "4.IH"(2) [OF \<open>is_valid_move b r c v\<close> r1 refl refl False _ rc _ vs this]
      show ?thesis using undo wf e by simp
    qed
  qed
qed


lemma bruteforce_returns:
  "wf_board b \<Longrightarrow> count_empty b < n \<Longrightarrow> bt_bruteforce n b ms \<noteq> None"
  "wf_board b \<Longrightarrow> r < 9 \<Longrightarrow> c < 9 \<Longrightarrow> b ! r ! c = 0 \<Longrightarrow> set vs \<subseteq> {1..9} \<Longrightarrow>
   count_empty b \<le> n \<Longrightarrow> try_values n b ms r c vs \<noteq> None"
proof (induction n b ms and n b ms r c vs rule: bt_bruteforce_try_values.induct)
  case (1 b ms)
  then show ?case by simp
next
  case (2 n b ms)
  show ?case
  proof (cases "find_empty b")
    case None
    then show ?thesis by simp
  next
    case (Some rc)
    obtain r c where rc: "rc = (r, c)" by (metis surj_pair)
    have e: "r < 9 \<and> c < 9 \<and> b ! r ! c = 0" using Some rc find_empty_Some by blast
    have "try_values n b ms r c [1..9] \<noteq> None"
      using "2.IH" [OF Some rc [symmetric] "2.prems"(1)] e "2.prems"(2) by simp
    then show ?thesis using Some rc by simp
  qed
next
  case (3 n b ms r c)
  then show ?case by simp
next
  case (4 n b ms r c v vs)
  have v: "1 \<le> v" "v \<le> 9" and vs: "set vs \<subseteq> {1..9}" using "4.prems"(5) by auto
  note wf = "4.prems"(1) and rc = "4.prems"(2,3) and e = "4.prems"(4) and cnt = "4.prems"(6)
  let ?B = "set_cell b r c v"
  show ?case
  proof (cases "is_valid_move b r c v")
    case False
    then show ?thesis using "4.IH"(3) [OF False wf rc e vs cnt] by simp
  next
    case True
    have "count_empty ?B < count_empty b" using wf rc e v by (intro count_empty_set_cell) auto
    then have "count_empty ?B < n" using cnt by simp
    then have "bt_bruteforce n ?B (ms @ [try_msg r c v]) \<noteq> None"
      using "4.IH"(1) [OF True wf_set_cell [OF wf]] by blast
    then obtain ok1 b1 ms1 where r1: "bt_bruteforce n ?B (ms @ [try_msg r c v]) = Some (ok1, b1, ms1)"
      by (metis not_None_eq prod_cases3)
    have p1: "bt_post ?B ok1 b1" using bruteforce_post(1) [OF wf_set_cell [OF wf] r1] .
    show ?thesis
    proof (cases ok1)
      case True
      then show ?thesis using \<open>is_valid_move b r c v\<close> r1 by simp
    next
      case False
      then have b1: "b1 = ?B" using p1 by (simp add: bt_post_def)
      have undo: "set_cell b1 r c 0 = b" unfolding b1 using wf rc e by (rule set_cell_reset)
      have "try_values n (set_cell b1 r c 0) (ms1 @ [backtrack_msg r c v]) r c vs \<noteq> None"
        using "4.IH"(2) [OF \<open>is_valid_move b r c v\<close> r1 refl refl False] undo wf rc e vs cnt by simp
      then show ?thesis using \<open>is_valid_move b r c v\<close> r1 False by simp
    qed
  qed
qed

lemma completion_move_valid:
  assumes wf: "wf_board s" and ok: "is_complete_and_valid s" and f: "filled_by b s"
    and rc: "r < 9" "c < 9"
  shows "is_valid_move b r c (s ! r ! c)"
proof -
  have con: "consistent s" and rng: "\<forall>i<9. \<forall>j<9. 1 \<le> s ! i ! j \<and> s ! i ! j \<le> 9"
    using valid_elim [OF wf ok] by blast+
  have nz: "s ! r ! c \<noteq> 0" using rng rc by force
  have "b ! i ! j \<noteq> s ! r ! c" if "i < 9" "j < 9" "peer r c i j" for i j
  proof (cases "b ! i ! j = 0")
    case True
    then show ?thesis using nz by simp
  next
    case False
    then have "b ! i ! j = s ! i ! j" using f that unfolding filled_by_iff by simp
    moreover have "s ! i ! j \<noteq> s ! r ! c"
      using con rc that nz unfolding consistent_iff by blast
    ultimately show ?thesis by simp
  qed
  then show ?thesis using rc by (simp add: is_valid_move_iff)
qed

lemma filled_by_set_cell_completion:
  assumes "wf_board b" "r < 9" "c < 9" "filled_by b s"
  shows "filled_by (set_cell b r c (s ! r ! c)) s"
  unfolding filled_by_iff using assms by (auto simp: nth_set_cell filled_by_iff)

lemma bruteforce_complete:
  "wf_board b \<Longrightarrow> wf_board s \<Longrightarrow> is_complete_and_valid s \<Longrightarrow> filled_by b s \<Longrightarrow>
   bt_bruteforce n b ms = Some (ok, b', ms') \<Longrightarrow> ok"
  "wf_board b \<Longrightarrow> wf_board s \<Longrightarrow> is_complete_and_valid s \<Longrightarrow> filled_by b s \<Longrightarrow>
   r < 9 \<Longrightarrow> c < 9 \<Longrightarrow> b ! r ! c = 0 \<Longrightarrow> s ! r ! c \<in> set vs \<Longrightarrow>
   try_values n b ms r c vs = Some (ok, b', ms') \<Longrightarrow> ok"
proof (induction n b ms and n b ms r c vs arbitrary: ok b' ms' and ok b' ms'
    rule: bt_bruteforce_try_values.induct)
  case (1 b ms)
  then show ?case by simp
next
  case (2 n b ms)
  show ?case
  proof (cases "find_empty b")
    case None
    then show ?thesis using "2.prems"(5) by simp
  next
    case (Some rc)
    obtain r c where rc: "rc = (r, c)" by (metis surj_pair)
    have e: "r < 9" "c < 9" "b ! r ! c = 0" using Some rc find_empty_Some by blast+
    have "1 \<le> s ! r ! c \<and> s ! r ! c \<le> 9"
      using valid_elim [OF "2.prems"(2,3)] e by blast
    then have mem: "s ! r ! c \<in> set [1..9]" by (simp del: upto_rec_numeral)
    have run: "try_values n b ms r c [1..9] = Some (ok, b', ms')"
      using "2.prems"(5) Some rc by simp
    show ?thesis
      using "2.IH" [OF Some rc [symmetric] "2.prems"(1-4) e mem run] .
  qed
next
  case (3 n b ms r c)
  then show ?case by simp
next
  case (4 n b ms r c v vs)
  note wf = "4.prems"(1) and s = "4.prems"(2,3,4) and rc = "4.prems"(5,6) and e = "4.prems"(7)
  let ?B = "set_cell b r c v"
  have legal: "is_valid_move b r c (s ! r ! c)"
    using completion_move_valid [OF s(1,2,3) rc] .
  show ?case
  proof (cases "is_valid_move b r c v")
    case False
    then have "s ! r ! c \<noteq> v" using legal by blast
    then have mem: "s ! r ! c \<in> set vs" using "4.prems"(8) by simp
    have "try_values n b ms r c vs = Some (ok, b', ms')" using "4.prems"(9) False by simp
    then show ?thesis using "4.IH"(3) [OF False wf s rc e mem] by blast
  next
    case True
    obtain ok1 b1 ms1 where r1: "bt_bruteforce n ?B (ms @ [try_msg r c v]) = Some (ok1, b1, ms1)"
      using "4.prems"(9) True by (auto split: option.splits)
    show ?thesis
    proof (cases ok1)
      case True
      then show ?thesis using "4.prems"(9) \<open>is_valid_move b r c v\<close> r1 by simp
    next
      case False
      have p1: "bt_post ?B ok1 b1" using bruteforce_post(1) [OF wf_set_cell [OF wf] r1] .
      then have b1: "b1 = ?B" using False by (simp add: bt_post_def)
      have undo: "set_cell b1 r c 0 = b" unfolding b1 using wf rc e by (rule set_cell_reset)
      have "s ! r ! c \<noteq> v"
      proof
        assume eq: "s ! r ! c = v"
        have "filled_by ?B s" using filled_by_set_cell_completion [OF wf rc s(3)] eq by simp
        then have ok1 using "4.IH"(1) [OF True wf_set_cell [OF wf] s(1,2) _ r1] by blast
        then show False using False by simp
      qed
      then have mem: "s ! r ! c \<in> set vs" using "4.prems"(8) by simp
      have "try_values n (set_cell b1 r c 0) (ms1 @ [backtrack_msg r c v]) r c vs = Some (ok, b', ms')"
        using "4.prems"(9) \<open>is_valid_move b r c v\<close> r1 False by simp
      from "4.IH"(2) [OF \<open>is_valid_move b r c v\<close> r1 refl refl False _ s(1,2) _ rc _ mem this]
      show ?thesis using undo wf e s(3) by simp
    qed
  qed
qed

subsection \<open>The propagator\<close>

lemma refines_refl: "wf_board b \<Longrightarrow> refines b b"
  by (simp add: refines_def filled_by_refl)

lemma refines_trans: "refines a b \<Longrightarrow> refines b c \<Longrightarrow> refines a c"
  unfolding refines_def using filled_by_trans by (auto split: if_splits)

lemma refines_wf: "refines b b' \<Longrightarrow> wf_board b'"
  by (simp add: refines_def)

lemma refines_count: "refines b b' \<Longrightarrow> count_empty b' \<le> count_empty b"
  by (simp add: refines_def)

lemma refines_set_cell:
  assumes wf: "wf_board b" and rc: "r < 9" "c < 9" and e: "b ! r ! c = 0"
    and v: "1 \<le> v" "v \<le> 9" and ok: "is_valid_move b r c v"
  shows "refines b (set_cell b r c v)" "count_empty (set_cell b r c v) < count_empty b"
proof -
  show lt: "count_empty (set_cell b r c v) < count_empty b"
    using wf rc e v by (intro count_empty_set_cell) auto
  have "consistent (set_cell b r c v)" if "consistent b"
    using consistent_set_cell [OF wf rc that ok] .
  moreover have "in_range (set_cell b r c v)" if "in_range b"
    using in_range_set_cell [OF wf rc that] v by simp
  ultimately show "refines b (set_cell b r c v)"
    using lt wf_set_cell [OF wf] filled_by_set_cell [OF wf rc e] by (simp add: refines_def)
qed

lemma refines_reset:
  assumes wf: "wf_board b" and rc: "r < 9" "c < 9" and e: "b ! r ! c = 0"
    and B: "refines b B" "count_empty B < count_empty b" and b2: "refines B b2"
  shows "refines b (set_cell b2 r c 0)"
proof -
  have wf2: "wf_board b2" using b2 by (rule refines_wf)
  have r2: "refines b b2" using B(1) b2 by (rule refines_trans)
  have f: "filled_by b (set_cell b2 r c 0)"
    unfolding filled_by_iff
  proof (intro allI impI)
    fix i j :: nat assume ij: "i < 9" "j < 9" and nz: "b ! i ! j \<noteq> 0"
    then have "(i, j) \<noteq> (r, c)" using e by auto
    moreover have "b2 ! i ! j = b ! i ! j" using r2 ij nz by (simp add: refines_def filled_by_iff)
    ultimately show "set_cell b2 r c 0 ! i ! j = b ! i ! j"
      using wf2 rc ij by (auto simp: nth_set_cell)
  qed
  have v0: "is_valid_move b2 r c 0" by (simp add: is_valid_move_def)
  have "consistent (set_cell b2 r c 0)" if "consistent b"
  proof -
    have "consistent b2" using r2 that by (simp add: refines_def)
    then show ?thesis using consistent_set_cell [OF wf2 rc _ v0] by blast
  qed
  moreover have "in_range (set_cell b2 r c 0)" if "in_range b"
  proof -
    have "in_range b2" using r2 that by (simp add: refines_def)
    then show ?thesis using in_range_set_cell [OF wf2 rc] by simp
  qed
  moreover have "count_empty (set_cell b2 r c 0) \<le> count_empty b"
    using count_empty_reset [OF wf2 rc] refines_count [OF b2] B(2) by linarith
  ultimately show ?thesis using wf_set_cell [OF wf2] f by (simp add: refines_def)
qed

lemma candidates_legal:
  assumes wf: "wf_board b" and rc: "r < 9" "c < 9" and v: "v \<in> candidates b r c"
  shows "b ! r ! c = 0" "1 \<le> v" "v \<le> 9" "is_valid_move b r c v"
proof -
  show e: "b ! r ! c = 0" using v by (auto simp: candidates_def split: if_splits)
  have m: "v \<in> set [1..9]" "v \<notin> used_values b r c"
    using v e by (simp_all add: candidates_def del: upto_rec_numeral)
  show "1 \<le> v" "v \<le> 9" using m(1) by (simp_all del: upto_rec_numeral)
  have "b ! i ! j \<noteq> v" if "i < 9" "j < 9" "peer r c i j" for i j
  proof
    assume "b ! i ! j = v"
    then have "v \<in> used_values b r c"
      unfolding in_used_values_iff [OF wf rc] using that by (auto simp: peer_def)
    then show False using m(2) by simp
  qed
  then show "is_valid_move b r c v" using rc by (simp add: is_valid_move_iff)
qed

lemma scan_cell_cases:
  assumes wf: "wf_board b" and rc: "r < 9" "c < 9"
    and run: "scan_cell (b, ms, p) (r, c) = (b', ms', p')"
  shows "(b' = b \<and> ms' = ms \<and> p' = p) \<or>
         (p' \<and> count_empty b' < count_empty b \<and> refines b b')"
proof (cases "b ! r ! c = 0 \<and> card (candidates b r c) = 1")
  case False
  then show ?thesis using run by (auto simp: scan_cell_def Let_def split: if_splits)
next
  case True
  let ?v = "the_elem (candidates b r c)"
  obtain x where "candidates b r c = {x}" using True by (metis card_1_singletonE)
  then have "?v \<in> candidates b r c" by simp
  note leg = candidates_legal [OF wf rc this]
  have "b' = set_cell b r c ?v" "p'" using run True by (simp_all add: scan_cell_def Let_def)
  then show ?thesis using refines_set_cell [OF wf rc leg] by simp
qed

lemma scan_cell_inv:
  assumes rc: "r < 9" "c < 9" and inv: "pass_inv b0 ms0 st"
  shows "pass_inv b0 ms0 (scan_cell st (r, c))"
proof -
  obtain b ms p where st: "st = (b, ms, p)" by (metis prod_cases3)
  obtain b' ms' p' where run: "scan_cell (b, ms, p) (r, c) = (b', ms', p')" by (metis prod_cases3)
  have ref: "refines b0 b" using inv st by (simp add: pass_inv_def)
  then have wf: "wf_board b" by (rule refines_wf)
  from scan_cell_cases [OF wf rc run]
  show ?thesis
  proof
    assume "b' = b \<and> ms' = ms \<and> p' = p"
    then show ?thesis using inv st run by simp
  next
    assume a: "p' \<and> count_empty b' < count_empty b \<and> refines b b'"
    then have "refines b0 b'" using ref refines_trans by blast
    moreover have "count_empty b' < count_empty b0" using a refines_count [OF ref] by linarith
    ultimately show ?thesis using a st run by (simp add: pass_inv_def)
  qed
qed

lemma foldl_scan_inv:
  assumes "\<forall>rc\<in>set cs. fst rc < 9 \<and> snd rc < 9" "pass_inv b0 ms0 st"
  shows "pass_inv b0 ms0 (foldl scan_cell st cs)"
  using assms
proof (induction cs arbitrary: st)
  case Nil
  then show ?case by simp
next
  case (Cons x cs)
  obtain r c where x: "x = (r, c)" by (metis surj_pair)
  have "pass_inv b0 ms0 (scan_cell st (r, c))"
    using Cons.prems x by (intro scan_cell_inv) auto
  then show ?case using Cons.IH Cons.prems(1) x by simp
qed

lemma scan_pass_inv:
  assumes "wf_board b"
  shows "pass_inv b ms (scan_pass b ms)"
  unfolding scan_pass_def
proof (rule foldl_scan_inv)
  show "\<forall>rc\<in>set cells. fst rc < 9 \<and> snd rc < 9" using cells_iff by auto
  show "pass_inv b ms (b, ms, False)" using assms by (simp add: pass_inv_def refines_refl)
qed

lemma scan_pass_cases:
  assumes "wf_board b" "scan_pass b ms = (b', ms', p)"
  shows "refines b b'" "p \<Longrightarrow> count_empty b' < count_empty b" "\<not> p \<Longrightarrow> b' = b \<and> ms' = ms"
  using scan_pass_inv [OF assms(1), of ms] assms(2) by (simp_all add: pass_inv_def)


lemma scan_cell_trace_indep:
  "fst (scan_cell (b, ms, p) rc) = fst (scan_cell (b, ms2, p) rc) \<and>
   snd (snd (scan_cell (b, ms, p) rc)) = snd (snd (scan_cell (b, ms2, p) rc))"
  by (simp add: scan_cell_def Let_def split: prod.splits)

lemma foldl_scan_trace_indep:
  "fst (foldl scan_cell (b, ms, p) cs) = fst (foldl scan_cell (b, ms2, p) cs) \<and>
   snd (snd (foldl scan_cell (b, ms, p) cs)) = snd (snd (foldl scan_cell (b, ms2, p) cs))"
proof (induction cs arbitrary: b ms ms2 p)
  case Nil
  then show ?case by simp
next
  case (Cons x cs)
  obtain b1 m1 p1 where s1: "scan_cell (b, ms, p) x = (b1, m1, p1)" by (metis prod_cases3)
  obtain b2 m2 p2 where s2: "scan_cell (b, ms2, p) x = (b2, m2, p2)" by (metis prod_cases3)
  have "b1 = b2" "p1 = p2" using scan_cell_trace_indep [of b ms p x ms2] s1 s2 by simp_all
  then show ?case using Cons.IH [of b1 m1 p1 m2] s1 s2 by simp
qed

lemma scan_pass_fixed:
  assumes wf: "wf_board b" and fp: "scan_pass b ms = (b, ms, False)"
  shows "scan_pass b ms2 = (b, ms2, False)"
proof -
  obtain b' ms' p where run: "scan_pass b ms2 = (b', ms', p)" by (metis prod_cases3)
  have "b' = b" "p = False"
    using foldl_scan_trace_indep [of b ms False cells ms2] fp run by (simp_all add: scan_pass_def)
  moreover have "ms' = ms2" using scan_pass_cases(3) [OF wf run] \<open>p = False\<close> by simp
  ultimately show ?thesis using run by simp
qed

lemma propagate_loop_result:
  assumes "wf_board b"
  shows "\<exists>ch' b1 ms1. propagate_loop b ms ch = Some (ch', b1, ms1) \<and> refines b b1 \<and>
           scan_pass b1 ms1 = (b1, ms1, False) \<and> (ch' \<longleftrightarrow> ch \<or> b1 \<noteq> b) \<and>
           (if b1 = b then ms1 = ms else True)"
  using assms
proof (induction "count_empty b" arbitrary: b ms ch rule: less_induct)
  case less
  note wf = less.prems
  obtain b' ms' p where run: "scan_pass b ms = (b', ms', p)" by (metis prod_cases3)
  note sp = scan_pass_cases [OF wf run]
  show ?case
  proof (cases p)
    case False
    then have same: "b' = b" "ms' = ms" using sp(3) by simp_all
    have "propagate_loop b ms ch = Some (ch, b, ms)"
      using run False same by (subst propagate_loop.simps) simp
    moreover have "scan_pass b ms = (b, ms, False)" using run False same by simp
    ultimately show ?thesis using refines_refl [OF wf] by simp
  next
    case True
    then have lt: "count_empty b' < count_empty b" using sp(2) by simp
    have wf': "wf_board b'" using sp(1) by (rule refines_wf)
    from less.hyps [OF lt wf', of ms' True]
    obtain ch' b1 ms1 where r: "propagate_loop b' ms' True = Some (ch', b1, ms1)" "refines b' b1"
      "scan_pass b1 ms1 = (b1, ms1, False)" "ch'" by auto
    have "propagate_loop b ms ch = Some (ch', b1, ms1)"
      using run True r(1) by (subst propagate_loop.simps) simp
    moreover have "refines b b1" using sp(1) r(2) by (rule refines_trans)
    moreover have "b1 \<noteq> b" using refines_count [OF r(2)] lt by auto
    ultimately show ?thesis using r(3,4) by auto
  qed
qed

lemma propagate_singles_result:
  assumes "wf_board b"
  shows "\<exists>ch b1 ms1. propagate_singles b ms = Some (ch, b1, ms1) \<and> refines b b1 \<and>
           scan_pass b1 ms1 = (b1, ms1, False) \<and> (ch \<longleftrightarrow> b1 \<noteq> b) \<and>
           (if b1 = b then ms1 = ms else True)"
  using propagate_loop_result [OF assms, of ms False] by (simp add: propagate_singles_def)

lemma propagate_singles_fixed:
  assumes "wf_board b" "scan_pass b ms = (b, ms, False)"
  shows "propagate_singles b ms2 = Some (False, b, ms2)"
  unfolding propagate_singles_def
  using scan_pass_fixed [OF assms, of ms2] by (subst propagate_loop.simps) simp

text \<open>
  C7. On every 9x9 board \<open>propagate_singles\<close> returns, and a second run on the board
  and trace it returned changes neither and returns "no change" (\<open>False\<close>).
\<close>

theorem propagate_singles_idempotent:
  assumes "wf_board g"
  shows "\<exists>changed g1 ms1. propagate_singles g ms = Some (changed, g1, ms1) \<and>
           propagate_singles g1 ms1 = Some (False, g1, ms1)"
proof -
  from propagate_singles_result [OF assms, of ms]
  obtain ch g1 ms1 where r: "propagate_singles g ms = Some (ch, g1, ms1)" "refines g g1"
    "scan_pass g1 ms1 = (g1, ms1, False)" by blast
  have "propagate_singles g1 ms1 = Some (False, g1, ms1)"
    using propagate_singles_fixed [OF refines_wf [OF r(2)] r(3)] .
  then show ?thesis using r(1) by blast
qed

theorem propagate_singles_idempotent_witness:
  "wf_board classic_puzzle \<and>
   propagate_singles classic_puzzle [] \<noteq> None \<and>
   (case propagate_singles classic_puzzle [] of
      Some (changed, g1, ms1) \<Rightarrow> propagate_singles g1 ms1 = Some (False, g1, ms1)
    | None \<Rightarrow> False)"
proof -
  have wf: "wf_board classic_puzzle" by code_simp
  from propagate_singles_idempotent [OF wf, of "[]"] wf show ?thesis by auto
qed

subsection \<open>Strategy B: what the search with propagation returns\<close>

lemma mrv_scan_Some:
  assumes "\<forall>rc\<in>set cs. fst rc < 9 \<and> snd rc < 9"
    and "case best of None \<Rightarrow> True
         | Some (r, c, cand) \<Rightarrow> r < 9 \<and> c < 9 \<and> b ! r ! c = 0 \<and> cand = candidates b r c \<and> cand \<noteq> {}"
    and "mrv_scan b cs best = Some (r, c, cand)"
  shows "r < 9 \<and> c < 9 \<and> b ! r ! c = 0 \<and> cand = candidates b r c \<and> cand \<noteq> {}"
  using assms
proof (induction b cs best rule: mrv_scan.induct)
  case (1 b best)
  then show ?case by auto
next
  case (2 b r' c' rest best)
  have rest: "\<forall>rc\<in>set rest. fst rc < 9 \<and> snd rc < 9" and rc': "r' < 9" "c' < 9"
    using "2.prems"(1) by simp_all
  show ?case
  proof (cases "b ! r' ! c' = 0")
    case False
    then show ?thesis using "2.IH"(3) [OF False rest "2.prems"(2)] "2.prems"(3) by auto
  next
    case True
    let ?cand = "candidates b r' c'"
    have ne: "?cand \<noteq> {}" using "2.prems"(3) True by (auto simp: Let_def split: if_splits)
    show ?thesis
    proof (cases "case best of None \<Rightarrow> True | Some (_, _, best_cands) \<Rightarrow> card ?cand < card best_cands")
      case better: True
      have "mrv_scan b rest (Some (r', c', ?cand)) = Some (r, c, cand)"
        using "2.prems"(3) True ne better by (simp add: Let_def)
      then show ?thesis
        using "2.IH"(1) [OF True refl ne better rest] rc' True ne by auto
    next
      case worse: False
      have "mrv_scan b rest best = Some (r, c, cand)"
        using "2.prems"(3) True ne worse by (simp add: Let_def)
      then show ?thesis
        using "2.IH"(2) [OF True refl ne worse rest "2.prems"(2)] by auto
    qed
  qed
qed

lemma select_mrv_cell_Some:
  assumes "select_mrv_cell b = Some (r, c, cand)"
  shows "r < 9" "c < 9" "b ! r ! c = 0" "cand = candidates b r c" "cand \<noteq> {}"
proof -
  have "\<forall>rc\<in>set cells. fst rc < 9 \<and> snd rc < 9" using cells_iff by auto
  from mrv_scan_Some [OF this _ assms [unfolded select_mrv_cell_def]]
  show "r < 9" "c < 9" "b ! r ! c = 0" "cand = candidates b r c" "cand \<noteq> {}" by auto
qed

lemma candidates_subset: "candidates b r c \<subseteq> {1..9}"
  by (auto simp: candidates_def simp del: upto_rec_numeral)

lemma candidates_sorted_list: "set (sorted_list_of_set (candidates b r c)) = candidates b r c"
proof -
  have "finite (candidates b r c)" by (simp add: candidates_def del: set_filter)
  then show ?thesis by simp
qed

lemma propagate_singles_Some:
  assumes "wf_board b" "propagate_singles b ms = Some (ch, b1, ms1)"
  shows "refines b b1" "scan_pass b1 ms1 = (b1, ms1, False)"
  using propagate_singles_result [OF assms(1), of ms] assms(2) by auto

lemma propagation_post:
  "wf_board b \<Longrightarrow> bt_propagation n b ms = Some (ok, b', ms') \<Longrightarrow>
   refines b b' \<and> (if ok then find_empty b' = None else True)"
  "wf_board b \<Longrightarrow> r < 9 \<Longrightarrow> c < 9 \<Longrightarrow> b ! r ! c = 0 \<Longrightarrow> set vs \<subseteq> {1..9} \<Longrightarrow>
   try_candidates n b ms r c vs = Some (ok, b', ms') \<Longrightarrow>
   refines b b' \<and> (if ok then find_empty b' = None else True)"
proof (induction n b ms and n b ms r c vs arbitrary: ok b' ms' and ok b' ms'
    rule: bt_propagation_try_candidates.induct)
  case (1 b ms)
  then show ?case by simp
next
  case (2 n b ms)
  show ?case
  proof (cases "select_mrv_cell b")
    case None
    then have "ok = (find_empty b = None)" "b' = b" using "2.prems"(2) by auto
    then show ?thesis using refines_refl [OF "2.prems"(1)] by simp
  next
    case (Some x)
    obtain r c cand where x: "x = (r, c, cand)" by (metis prod_cases3)
    note sel = select_mrv_cell_Some [OF Some [unfolded x]]
    have vs: "set (sorted_list_of_set cand) \<subseteq> {1..9}"
      using sel(4) candidates_sorted_list candidates_subset by simp
    have run: "try_candidates n b ms r c (sorted_list_of_set cand) = Some (ok, b', ms')"
      using "2.prems"(2) Some x by simp
    show ?thesis
      using "2.IH" [OF Some [unfolded x] refl refl "2.prems"(1) sel(1,2,3) vs run] .
  qed
next
  case (3 n b ms r c)
  then show ?case using refines_refl by simp
next
  case (4 n b ms r c v vs)
  have v: "1 \<le> v" "v \<le> 9" and vs: "set vs \<subseteq> {1..9}" using "4.prems"(5) by auto
  note wf = "4.prems"(1) and rc = "4.prems"(2,3) and e = "4.prems"(4) and run = "4.prems"(6)
  let ?B = "set_cell b r c v"
  let ?ms1 = "ms @ [choose_msg r c v]"
  show ?case
  proof (cases "is_valid_move b r c v")
    case False
    then have "try_candidates n b ?ms1 r c vs = Some (ok, b', ms')" using run by (simp add: Let_def)
    then show ?thesis using "4.IH"(3) [OF refl False wf rc e vs] by blast
  next
    case True
    note rB = refines_set_cell [OF wf rc e v True]
    obtain ch b1 ms2 where pr: "propagate_singles ?B ?ms1 = Some (ch, b1, ms2)"
      using run True by (auto simp: Let_def split: option.splits)
    note p1 = propagate_singles_Some [OF refines_wf [OF rB(1)] pr]
    have wf1: "wf_board b1" using p1(1) by (rule refines_wf)
    obtain ok1 b2 ms3 where r1: "bt_propagation n b1 ms2 = Some (ok1, b2, ms3)"
      using run True pr by (auto simp: Let_def split: option.splits)
    have i1: "refines b1 b2 \<and> (if ok1 then find_empty b2 = None else True)"
      using "4.IH"(1) [OF refl True pr refl refl wf1 r1] .
    have rB2: "refines ?B b2" using p1(1) i1 refines_trans by blast
    show ?thesis
    proof (cases ok1)
      case True
      then have "ok" "b' = b2" using run \<open>is_valid_move b r c v\<close> pr r1 by (simp_all add: Let_def)
      moreover have "refines b b2" using rB(1) rB2 by (rule refines_trans)
      ultimately show ?thesis using i1 True by simp
    next
      case False
      let ?b3 = "set_cell b2 r c 0"
      have r3: "refines b ?b3" using refines_reset [OF wf rc e rB rB2] .
      have wf3: "wf_board ?b3" using r3 by (rule refines_wf)
      have e3: "?b3 ! r ! c = 0"
        using refines_wf [OF rB2] rc by (simp add: nth_set_cell)
      have "try_candidates n ?b3 (ms3 @ [backtrack_msg r c v]) r c vs = Some (ok, b', ms')"
        using run \<open>is_valid_move b r c v\<close> pr r1 False by (simp add: Let_def)
      from "4.IH"(2) [OF refl \<open>is_valid_move b r c v\<close> pr refl refl r1 refl refl False wf3 rc e3 vs this]
      show ?thesis using r3 refines_trans by blast
    qed
  qed
qed

lemma propagation_returns:
  "wf_board b \<Longrightarrow> count_empty b < n \<Longrightarrow> bt_propagation n b ms \<noteq> None"
  "wf_board b \<Longrightarrow> r < 9 \<Longrightarrow> c < 9 \<Longrightarrow> b ! r ! c = 0 \<Longrightarrow> set vs \<subseteq> {1..9} \<Longrightarrow>
   count_empty b \<le> n \<Longrightarrow> try_candidates n b ms r c vs \<noteq> None"
proof (induction n b ms and n b ms r c vs rule: bt_propagation_try_candidates.induct)
  case (1 b ms)
  then show ?case by simp
next
  case (2 n b ms)
  show ?case
  proof (cases "select_mrv_cell b")
    case None
    then show ?thesis by simp
  next
    case (Some x)
    obtain r c cand where x: "x = (r, c, cand)" by (metis prod_cases3)
    note sel = select_mrv_cell_Some [OF Some [unfolded x]]
    have vs: "set (sorted_list_of_set cand) \<subseteq> {1..9}"
      using sel(4) candidates_sorted_list candidates_subset by simp
    have "count_empty b \<le> n" using "2.prems"(2) by simp
    then have "try_candidates n b ms r c (sorted_list_of_set cand) \<noteq> None"
      using "2.IH" [OF Some [unfolded x] refl refl "2.prems"(1) sel(1,2,3) vs] by blast
    then show ?thesis using Some x by simp
  qed
next
  case (3 n b ms r c)
  then show ?case by simp
next
  case (4 n b ms r c v vs)
  have v: "1 \<le> v" "v \<le> 9" and vs: "set vs \<subseteq> {1..9}" using "4.prems"(5) by auto
  note wf = "4.prems"(1) and rc = "4.prems"(2,3) and e = "4.prems"(4) and cnt = "4.prems"(6)
  let ?B = "set_cell b r c v"
  let ?ms1 = "ms @ [choose_msg r c v]"
  show ?case
  proof (cases "is_valid_move b r c v")
    case False
    then show ?thesis using "4.IH"(3) [OF refl False wf rc e vs cnt] by (simp add: Let_def)
  next
    case True
    note rB = refines_set_cell [OF wf rc e v True]
    obtain ch b1 ms2 where pr: "propagate_singles ?B ?ms1 = Some (ch, b1, ms2)"
      using propagate_singles_result [OF refines_wf [OF rB(1)], of ?ms1] by blast
    note p1 = propagate_singles_Some [OF refines_wf [OF rB(1)] pr]
    have wf1: "wf_board b1" using p1(1) by (rule refines_wf)
    have "count_empty b1 < n" using refines_count [OF p1(1)] rB(2) cnt by linarith
    then have "bt_propagation n b1 ms2 \<noteq> None"
      using "4.IH"(1) [OF refl True pr refl refl wf1] by blast
    then obtain ok1 b2 ms3 where r1: "bt_propagation n b1 ms2 = Some (ok1, b2, ms3)"
      by (metis not_None_eq prod_cases3)
    have i1: "refines b1 b2" using propagation_post(1) [OF wf1 r1] by blast
    have rB2: "refines ?B b2" using p1(1) i1 by (rule refines_trans)
    show ?thesis
    proof (cases ok1)
      case True
      then show ?thesis using \<open>is_valid_move b r c v\<close> pr r1 by (simp add: Let_def)
    next
      case False
      let ?b3 = "set_cell b2 r c 0"
      have r3: "refines b ?b3" using refines_reset [OF wf rc e rB rB2] .
      have wf3: "wf_board ?b3" using r3 by (rule refines_wf)
      have e3: "?b3 ! r ! c = 0"
        using refines_wf [OF rB2] rc by (simp add: nth_set_cell)
      have c3: "count_empty ?b3 \<le> n" using refines_count [OF r3] cnt by linarith
      have "try_candidates n ?b3 (ms3 @ [backtrack_msg r c v]) r c vs \<noteq> None"
        using "4.IH"(2) [OF refl \<open>is_valid_move b r c v\<close> pr refl refl r1 refl refl False wf3 rc e3 vs c3] .
      then show ?thesis using \<open>is_valid_move b r c v\<close> pr r1 False by (simp add: Let_def)
    qed
  qed
qed

subsection \<open>What a returned board satisfies\<close>

lemma deep_copy_id: "deep_copy b = b"
  by (simp add: deep_copy_def)

lemma solve_bruteforce_result:
  assumes wf: "wf_board g"
  shows "\<exists>ok b' ms'. bt_bruteforce max_depth g ms = Some (ok, b', ms') \<and> bt_post g ok b' \<and>
           solve_bruteforce g ms = Some (if ok then Some b' else None, ms')"
proof -
  have "count_empty g < max_depth" using count_empty_le [of g] by (simp add: max_depth_def)
  then have "bt_bruteforce max_depth g ms \<noteq> None" using bruteforce_returns(1) [OF wf] by blast
  then obtain ok b' ms' where r: "bt_bruteforce max_depth g ms = Some (ok, b', ms')"
    by (metis not_None_eq prod_cases3)
  have "bt_post g ok b'" using bruteforce_post(1) [OF wf r] .
  moreover have "solve_bruteforce g ms = Some (if ok then Some b' else None, ms')"
    using r by (simp add: solve_bruteforce_def deep_copy_id)
  ultimately show ?thesis using r by blast
qed

lemma solve_backtracking_propagation_result:
  assumes wf: "wf_board g"
  shows "\<exists>ok b' ms'. refines g b' \<and> (if ok then find_empty b' = None else True) \<and>
           solve_backtracking_propagation g ms = Some (if ok then Some b' else None, ms')"
proof -
  obtain ch b1 ms1 where pr: "propagate_singles g ms = Some (ch, b1, ms1)" and r1: "refines g b1"
    using propagate_singles_result [OF wf, of ms] by blast
  have wf1: "wf_board b1" using r1 by (rule refines_wf)
  have "count_empty b1 < max_depth" using count_empty_le [of b1] by (simp add: max_depth_def)
  then have "bt_propagation max_depth b1 ms1 \<noteq> None" using propagation_returns(1) [OF wf1] by blast
  then obtain ok b' ms' where r: "bt_propagation max_depth b1 ms1 = Some (ok, b', ms')"
    by (metis not_None_eq prod_cases3)
  have p: "refines b1 b' \<and> (if ok then find_empty b' = None else True)"
    using propagation_post(1) [OF wf1 r] .
  then have "refines g b'" using r1 refines_trans by blast
  moreover have "solve_backtracking_propagation g ms = Some (if ok then Some b' else None, ms')"
    using pr r by (simp add: solve_backtracking_propagation_def deep_copy_id)
  ultimately show ?thesis using p by blast
qed

lemma full_consistent_valid:
  assumes wf: "wf_board s" and full: "find_empty s = None" and rng: "in_range s" and con: "consistent s"
  shows "is_complete_and_valid s"
proof (rule valid_intro [OF wf con])
  show "\<forall>i<9. \<forall>j<9. 1 \<le> s ! i ! j \<and> s ! i ! j \<le> 9"
  proof (intro allI impI)
    fix i j :: nat assume ij: "i < 9" "j < 9"
    have "s ! i ! j \<noteq> 0" using full ij by (simp add: find_empty_None_iff)
    moreover have "0 \<le> s ! i ! j \<and> s ! i ! j \<le> 9" using rng ij by (simp add: in_range_iff [OF wf])
    ultimately show "1 \<le> s ! i ! j \<and> s ! i ! j \<le> 9" by linarith
  qed
qed

lemma solve_bruteforce_sound:
  assumes wf: "wf_board g" and run: "solve_bruteforce g ms = Some (Some s, ms')"
  shows "wf_board s" "find_empty s = None" "filled_by g s"
    "consistent g \<Longrightarrow> consistent s" "in_range g \<Longrightarrow> in_range s"
proof -
  from solve_bruteforce_result [OF wf, of ms]
  obtain ok b' ms2 where r: "bt_post g ok b'"
    "solve_bruteforce g ms = Some (if ok then Some b' else None, ms2)" by blast
  have "ok" "b' = s" using r(2) run by (simp_all split: if_splits)
  then have "bt_post g True s" using r(1) by simp
  then show "wf_board s" "find_empty s = None" "filled_by g s"
    "consistent g \<Longrightarrow> consistent s" "in_range g \<Longrightarrow> in_range s"
    by (simp_all add: bt_post_def)
qed

lemma solve_backtracking_propagation_sound:
  assumes wf: "wf_board g" and run: "solve_backtracking_propagation g ms = Some (Some s, ms')"
  shows "wf_board s" "find_empty s = None" "filled_by g s"
    "consistent g \<Longrightarrow> consistent s" "in_range g \<Longrightarrow> in_range s"
proof -
  from solve_backtracking_propagation_result [OF wf, of ms]
  obtain ok b' ms2 where r: "refines g b'" "if ok then find_empty b' = None else True"
    "solve_backtracking_propagation g ms = Some (if ok then Some b' else None, ms2)" by blast
  have "ok" "b' = s" using r(3) run by (simp_all split: if_splits)
  then have "refines g s \<and> find_empty s = None" using r(1,2) by simp
  then show "wf_board s" "find_empty s = None" "filled_by g s"
    "consistent g \<Longrightarrow> consistent s" "in_range g \<Longrightarrow> in_range s"
    by (simp_all add: refines_def)
qed

text \<open>
  C1, as the code has it. Neither solver looks at the cells that are filled at entry, so
  the result is only as good as the input: when a solver returns a board, every cell that
  was filled in the input holds its value there and no cell is empty; the board satisfies
  \<open>is_complete_and_valid\<close> when, in addition, the filled cells of the input are legal
  placements with respect to each other (\<open>consistent\<close>).
\<close>

theorem solvers_sound:
  assumes wf: "wf_board g" and rng: "in_range g"
    and run: "solve_bruteforce g ms = Some (Some s, ms') \<or>
              solve_backtracking_propagation g ms = Some (Some s, ms')"
  shows "(\<forall>i<9. \<forall>j<9. g ! i ! j \<noteq> 0 \<longrightarrow> s ! i ! j = g ! i ! j) \<and>
         (\<forall>i<9. \<forall>j<9. s ! i ! j \<noteq> 0) \<and>
         (consistent g \<longrightarrow> is_complete_and_valid s)"
proof -
  have p: "wf_board s \<and> find_empty s = None \<and> filled_by g s \<and>
      (consistent g \<longrightarrow> consistent s) \<and> in_range s"
    using run
  proof
    assume "solve_bruteforce g ms = Some (Some s, ms')"
    from solve_bruteforce_sound [OF wf this] rng show ?thesis by simp
  next
    assume "solve_backtracking_propagation g ms = Some (Some s, ms')"
    from solve_backtracking_propagation_sound [OF wf this] rng show ?thesis by simp
  qed
  then have "consistent g \<longrightarrow> is_complete_and_valid s"
    using full_consistent_valid by blast
  then show ?thesis using p by (simp add: filled_by_iff find_empty_None_iff)
qed

text \<open>
  C1 as stated fails: the board of fives has all cells in [0,9], both solvers return it
  as solved, and it is not complete and valid.
\<close>

lemma fives_facts:
  "wf_board fives_grid" "in_range fives_grid" "\<not> is_complete_and_valid fives_grid"
  "solve_bruteforce fives_grid [] = Some (Some fives_grid, [])"
  "solve_backtracking_propagation fives_grid [] = Some (Some fives_grid, [])"
  by code_simp+

theorem solvers_sound_counterexample:
  "wf_board fives_grid \<and> in_range fives_grid \<and>
   solve_bruteforce fives_grid [] = Some (Some fives_grid, []) \<and>
   solve_backtracking_propagation fives_grid [] = Some (Some fives_grid, []) \<and>
   \<not> is_complete_and_valid fives_grid"
  using fives_facts by simp

lemma classic_facts:
  "wf_board classic_puzzle" "in_range classic_puzzle" "consistent classic_puzzle"
  "wf_board classic_solution" "is_complete_and_valid classic_solution"
  "filled_by classic_puzzle classic_solution"
  by code_simp+

lemma classic_propagation:
  "map_option fst (solve_backtracking_propagation classic_puzzle []) = Some (Some classic_solution)"
  by code_simp

theorem solvers_sound_witness:
  "wf_board classic_puzzle \<and> in_range classic_puzzle \<and> consistent classic_puzzle \<and>
   map_option fst (solve_backtracking_propagation classic_puzzle []) = Some (Some classic_solution) \<and>
   classic_solution ! 0 ! 0 = classic_puzzle ! 0 ! 0 \<and>
   is_complete_and_valid classic_solution"
proof -
  obtain ms' where run: "solve_backtracking_propagation classic_puzzle [] = Some (Some classic_solution, ms')"
    using classic_propagation by auto
  have nz: "classic_puzzle ! 0 ! 0 \<noteq> 0" by code_simp
  from solvers_sound [OF classic_facts(1,2) disjI2 [OF run]] classic_facts(3) nz
  have "classic_solution ! 0 ! 0 = classic_puzzle ! 0 ! 0" "is_complete_and_valid classic_solution"
    by simp_all
  then show ?thesis using classic_facts classic_propagation by simp
qed

subsection \<open>Boards without a completion\<close>

lemma has_completion_iff:
  "has_completion g \<longleftrightarrow>
     (\<exists>s. wf_board s \<and> is_complete_and_valid s \<and> (\<forall>i<9. \<forall>j<9. g ! i ! j \<noteq> 0 \<longrightarrow> s ! i ! j = g ! i ! j))"
  by (simp add: has_completion_def filled_by_iff)

text \<open>
  C2, as the code has it. On a 9x9 board with cells in [0,9] whose filled cells are legal
  placements with respect to each other, and which has no completion, both solvers
  return, and return "no solution".
\<close>

theorem no_completion_no_solution:
  assumes wf: "wf_board g" and rng: "in_range g" and con: "consistent g"
    and nc: "\<not> has_completion g"
  shows "(\<exists>ms'. solve_bruteforce g ms = Some (None, ms')) \<and>
         (\<exists>ms'. solve_backtracking_propagation g ms = Some (None, ms'))"
proof -
  have no: "\<not> (wf_board s \<and> find_empty s = None \<and> filled_by g s \<and> consistent s \<and> in_range s)" for s
    using nc full_consistent_valid [of s] unfolding has_completion_def by blast
  obtain x ms1 where a: "solve_bruteforce g ms = Some (x, ms1)"
    using solve_bruteforce_result [OF wf, of ms] by blast
  have "x = None"
  proof (cases x)
    case (Some s)
    from solve_bruteforce_sound [OF wf a [unfolded Some]] con rng no [of s]
    show ?thesis by blast
  qed simp
  moreover
  obtain y ms2 where b: "solve_backtracking_propagation g ms = Some (y, ms2)"
    using solve_backtracking_propagation_result [OF wf, of ms] by blast
  have "y = None"
  proof (cases y)
    case (Some s)
    from solve_backtracking_propagation_sound [OF wf b [unfolded Some]] con rng no [of s]
    show ?thesis by blast
  qed simp
  ultimately show ?thesis using a b by simp
qed

text \<open>
  C2 as stated fails: the board of fives has no completion (it is full and not valid),
  and both solvers return it as solved.
\<close>

lemma fives_no_completion: "\<not> has_completion fives_grid"
proof
  assume "has_completion fives_grid"
  then obtain s where s: "wf_board s" "is_complete_and_valid s" "filled_by fives_grid s"
    unfolding has_completion_def by blast
  have "fives_grid ! 0 ! 0 = 5" "fives_grid ! 0 ! 1 = 5" by (simp_all add: fives_grid_def)
  then have "s ! 0 ! 0 = 5" "s ! 0 ! 1 = 5"
    using s(3) unfolding filled_by_iff by simp_all
  moreover have "peer 0 0 0 1" by (simp add: peer_def)
  moreover have "consistent s" using valid_elim [OF s(1,2)] by blast
  then have "peer 0 0 0 1 \<longrightarrow> s ! 0 ! 0 \<noteq> 0 \<longrightarrow> s ! 0 ! 1 \<noteq> s ! 0 ! 0"
    unfolding consistent_iff by simp
  ultimately show False by simp
qed

theorem no_completion_no_solution_counterexample:
  "wf_board fives_grid \<and> in_range fives_grid \<and> \<not> has_completion fives_grid \<and>
   solve_bruteforce fives_grid [] = Some (Some fives_grid, []) \<and>
   solve_backtracking_propagation fives_grid [] = Some (Some fives_grid, [])"
  using fives_facts fives_no_completion by simp

lemma dead_end_facts:
  "wf_board dead_end_grid" "in_range dead_end_grid" "consistent dead_end_grid"
  "list_all (\<lambda>v. \<not> is_valid_move dead_end_grid 0 0 v) [1..9]"
  by code_simp+

lemma dead_end_no_completion: "\<not> has_completion dead_end_grid"
proof
  assume "has_completion dead_end_grid"
  then obtain s where s: "wf_board s" "is_complete_and_valid s" "filled_by dead_end_grid s"
    unfolding has_completion_def by blast
  have "is_valid_move dead_end_grid 0 0 (s ! 0 ! 0)"
    using completion_move_valid [OF s] by simp
  moreover have "s ! 0 ! 0 \<in> set [1..9]"
    using valid_elim [OF s(1,2)] by (simp del: upto_rec_numeral)
  ultimately show False using dead_end_facts(4) unfolding list_all_iff by blast
qed

theorem no_completion_no_solution_witness:
  "wf_board dead_end_grid \<and> in_range dead_end_grid \<and> consistent dead_end_grid \<and>
   \<not> has_completion dead_end_grid \<and>
   (\<exists>ms'. solve_bruteforce dead_end_grid [] = Some (None, ms')) \<and>
   (\<exists>ms'. solve_backtracking_propagation dead_end_grid [] = Some (None, ms'))"
  using no_completion_no_solution [OF dead_end_facts(1,2,3) dead_end_no_completion, of "[]"]
    dead_end_facts(1,2,3) dead_end_no_completion by simp

subsection \<open>Boards that are already solved\<close>

lemma valid_full:
  assumes "wf_board g" "is_complete_and_valid g"
  shows "find_empty g = None"
proof -
  have "\<forall>i<9. \<forall>j<9. g ! i ! j \<noteq> 0" using valid_elim [OF assms] by force
  then show ?thesis by (simp add: find_empty_None_iff)
qed

lemma full_scan_pass:
  assumes wf: "wf_board g" and full: "find_empty g = None"
  shows "scan_pass g ms = (g, ms, False)"
proof -
  obtain b' ms' p where run: "scan_pass g ms = (b', ms', p)" by (metis prod_cases3)
  have z: "count_empty g = 0" using full by (simp add: count_empty_zero_iff)
  have "\<not> p" using scan_pass_cases(2) [OF wf run] z by auto
  then show ?thesis using scan_pass_cases(3) [OF wf run] run by simp
qed

lemma full_select_mrv_cell:
  assumes "find_empty g = None"
  shows "select_mrv_cell g = None"
proof (cases "select_mrv_cell g")
  case (Some x)
  obtain r c cand where x: "x = (r, c, cand)" by (metis prod_cases3)
  from select_mrv_cell_Some [OF Some [unfolded x]] assms show ?thesis
    by (simp add: find_empty_None_iff)
qed simp

text \<open>
  C8. On a board that is complete and valid, both solvers return that board and the
  trace they were given, with nothing appended.
\<close>

theorem solved_grid_returned:
  assumes wf: "wf_board g" and ok: "is_complete_and_valid g"
  shows "solve_bruteforce g ms = Some (Some g, ms) \<and>
         solve_backtracking_propagation g ms = Some (Some g, ms)"
proof -
  have full: "find_empty g = None" using wf ok by (rule valid_full)
  have d: "max_depth = Suc 81" by (simp add: max_depth_def)
  have "bt_bruteforce max_depth g ms = Some (True, g, ms)"
    unfolding d bt_bruteforce.simps full by simp
  then have "solve_bruteforce g ms = Some (Some g, ms)"
    by (simp add: solve_bruteforce_def deep_copy_id)
  moreover have "propagate_singles g ms = Some (False, g, ms)"
    using propagate_singles_fixed [OF wf full_scan_pass [OF wf full]] .
  moreover have "bt_propagation max_depth g ms = Some (True, g, ms)"
    unfolding d bt_propagation.simps full_select_mrv_cell [OF full] full by simp
  ultimately have "solve_backtracking_propagation g ms = Some (Some g, ms)"
    by (simp add: solve_backtracking_propagation_def deep_copy_id)
  then show ?thesis using \<open>solve_bruteforce g ms = Some (Some g, ms)\<close> by simp
qed

theorem solved_grid_returned_witness:
  "wf_board classic_solution \<and> is_complete_and_valid classic_solution \<and>
   solve_bruteforce classic_solution [] = Some (Some classic_solution, []) \<and>
   solve_backtracking_propagation classic_solution [] = Some (Some classic_solution, [])"
  using solved_grid_returned [OF classic_facts(4,5), of "[]"] classic_facts(4,5) by simp

subsection \<open>The classic puzzle\<close>

text \<open>
  C9. On the first easy puzzle each solver returns a board that is complete and valid
  (every row, column and box a permutation of 1 to 9) and whose cell (0,0) is 5. The exhaustive
  search is not run: it finds a board because a completion exists.
\<close>

theorem classic_puzzle_solved:
  "(case solve_bruteforce classic_puzzle [] of
      Some (Some s, ms) \<Rightarrow> is_complete_and_valid s \<and> s ! 0 ! 0 = 5
    | _ \<Rightarrow> False) \<and>
   (case solve_backtracking_propagation classic_puzzle [] of
      Some (Some s, ms) \<Rightarrow> is_complete_and_valid s \<and> s ! 0 ! 0 = 5
    | _ \<Rightarrow> False)"
proof -
  note wf = classic_facts(1)
  obtain ok b' ms' where r: "bt_bruteforce max_depth classic_puzzle [] = Some (ok, b', ms')"
    "bt_post classic_puzzle ok b'"
    "solve_bruteforce classic_puzzle [] = Some (if ok then Some b' else None, ms')"
    using solve_bruteforce_result [OF wf, of "[]"] by blast
  have ok: ok using bruteforce_complete(1) [OF wf classic_facts(4,5,6) r(1)] .
  then have run: "solve_bruteforce classic_puzzle [] = Some (Some b', ms')" using r(3) by simp
  have g: "classic_puzzle ! 0 ! 0 = 5" by (simp add: classic_puzzle_def)
  from solve_bruteforce_sound [OF wf run] classic_facts(2,3)
  have "is_complete_and_valid b'" "filled_by classic_puzzle b'"
    using full_consistent_valid by blast+
  then have "is_complete_and_valid b' \<and> b' ! 0 ! 0 = 5"
    using g unfolding filled_by_iff by simp
  moreover have "is_complete_and_valid classic_solution \<and> classic_solution ! 0 ! 0 = 5"
    using classic_facts(5) by (simp add: classic_solution_def)
  moreover obtain ms2 where "solve_backtracking_propagation classic_puzzle [] = Some (Some classic_solution, ms2)"
    using classic_propagation by auto
  ultimately show ?thesis using run by simp
qed

theorem classic_puzzle_solved_witness:
  "solve_bruteforce classic_puzzle [] \<noteq> None \<and>
   solve_backtracking_propagation classic_puzzle [] \<noteq> None"
  using classic_puzzle_solved by (auto split: option.splits)

subsection \<open>Backtracking in strategy B\<close>

lemma stale_facts:
  "wf_board stale_grid" "in_range stale_grid" "consistent stale_grid"
  "filled_by stale_grid classic_solution"
  "select_mrv_cell stale_grid = Some (0, 4, {2, 7})"
  "is_valid_move stale_grid 0 4 2"
  by code_simp+

lemma stale_branch:
  "propagate_singles (set_cell stale_grid 0 4 2) ([] @ [choose_msg 0 4 2]) =
     Some (True, stale_branch_grid, stale_branch_trace)"
  "bt_propagation 81 stale_branch_grid stale_branch_trace =
     Some (False, stale_branch_grid, stale_branch_trace)"
  by code_simp+

lemma stale_recheck:
  "\<not> is_valid_move (set_cell stale_branch_grid 0 4 0) 0 4 7"
  "set_cell stale_branch_grid 0 4 0 ! 0 ! 8 = 7" "stale_grid ! 0 ! 8 = 0"
  by code_simp+

lemma stale_result:
  "solve_backtracking_propagation stale_grid [] =
     Some (None, stale_branch_trace @
       [''Backtrack r1c5 (reset from 2 to 0)'', ''MRV choose r1c5 try 7''])"
  by code_simp

text \<open>
  C10. At a node of strategy B working on cell \<open>(r, c)\<close>, when the branch of a value
  \<open>v\<close> fails, the next value is tried on the board the failed branch left behind with
  only cell \<open>(r, c)\<close> reset to 0: every other cell is as the branch left it, and every
  cell that was filled after the propagation run of that branch still holds its value.
\<close>

theorem backtrack_keeps_propagated_cells:
  assumes wf: "wf_board b" and rc: "r < 9" "c < 9" and ok: "is_valid_move b r c v"
    and pr: "propagate_singles (set_cell b r c v) (ms @ [choose_msg r c v]) = Some (ch, b1, ms2)"
    and fail: "bt_propagation n b1 ms2 = Some (False, b2, ms3)"
  shows "try_candidates n b ms r c (v # vs) =
           try_candidates n (set_cell b2 r c 0) (ms3 @ [backtrack_msg r c v]) r c vs \<and>
         set_cell b2 r c 0 ! r ! c = 0 \<and>
         (\<forall>i<9. \<forall>j<9. (i, j) \<noteq> (r, c) \<longrightarrow> set_cell b2 r c 0 ! i ! j = b2 ! i ! j) \<and>
         (\<forall>i<9. \<forall>j<9. (i, j) \<noteq> (r, c) \<longrightarrow> b1 ! i ! j \<noteq> 0 \<longrightarrow>
            set_cell b2 r c 0 ! i ! j = b1 ! i ! j)"
proof -
  have wf1: "wf_board b1"
    using propagate_singles_Some(1) [OF wf_set_cell [OF wf] pr] by (rule refines_wf)
  have r12: "refines b1 b2" using propagation_post(1) [OF wf1 fail] by simp
  have wf2: "wf_board b2" using r12 by (rule refines_wf)
  have keep: "b2 ! i ! j = b1 ! i ! j" if "i < 9" "j < 9" "b1 ! i ! j \<noteq> 0" for i j
    using r12 that by (simp add: refines_def filled_by_iff)
  have "try_candidates n b ms r c (v # vs) =
      try_candidates n (set_cell b2 r c 0) (ms3 @ [backtrack_msg r c v]) r c vs"
    using ok pr fail by (simp add: Let_def)
  moreover have "set_cell b2 r c 0 ! r ! c = 0" using wf2 rc by (simp add: nth_set_cell)
  moreover have "\<forall>i<9. \<forall>j<9. (i, j) \<noteq> (r, c) \<longrightarrow> set_cell b2 r c 0 ! i ! j = b2 ! i ! j"
    using wf2 rc by (auto simp: nth_set_cell)
  moreover have "\<forall>i<9. \<forall>j<9. (i, j) \<noteq> (r, c) \<longrightarrow> b1 ! i ! j \<noteq> 0 \<longrightarrow>
      set_cell b2 r c 0 ! i ! j = b1 ! i ! j"
    using wf2 rc keep by (auto simp: nth_set_cell)
  ultimately show ?thesis by blast
qed

theorem backtrack_keeps_propagated_cells_witness:
  "wf_board stale_grid \<and> is_valid_move stale_grid 0 4 2 \<and>
   propagate_singles (set_cell stale_grid 0 4 2) ([] @ [choose_msg 0 4 2]) =
     Some (True, stale_branch_grid, stale_branch_trace) \<and>
   bt_propagation 81 stale_branch_grid stale_branch_trace =
     Some (False, stale_branch_grid, stale_branch_trace) \<and>
   try_candidates 81 stale_grid [] 0 4 [2, 7] =
     try_candidates 81 (set_cell stale_branch_grid 0 4 0)
       (stale_branch_trace @ [backtrack_msg 0 4 2]) 0 4 [7] \<and>
   stale_grid ! 0 ! 8 = 0 \<and> set_cell stale_branch_grid 0 4 0 ! 0 ! 8 = 7"
proof -
  have "(0::nat) < 9" "(4::nat) < 9" by simp_all
  from backtrack_keeps_propagated_cells [OF stale_facts(1) this stale_facts(6) stale_branch, of "[7]"]
  have "try_candidates 81 stale_grid [] 0 4 [2, 7] =
     try_candidates 81 (set_cell stale_branch_grid 0 4 0)
       (stale_branch_trace @ [backtrack_msg 0 4 2]) 0 4 [7]" by blast
  then show ?thesis using stale_facts(1,6) stale_branch stale_recheck(2,3) by simp
qed

lemma stale_has_completion: "has_completion stale_grid"
  unfolding has_completion_def using classic_facts(4,5) stale_facts(4) by blast

text \<open>
  C5 does not hold of the code. On \<open>stale_grid\<close>, which is consistent and has a
  completion, the selected cell (0,4) has the candidates 2 and 7. The branch of 2 fills
  cell (0,8) with 7 by propagation and fails; cell (0,8) keeps the 7 when cell (0,4) is
  reset, so the legality check rejects the candidate 7 and the solver returns "no
  solution", where the exhaustive strategy returns a complete and valid board.
\<close>

theorem recheck_rejects_candidate:
  "wf_board stale_grid \<and> in_range stale_grid \<and> consistent stale_grid \<and>
   has_completion stale_grid \<and>
   select_mrv_cell stale_grid = Some (0, 4, {2, 7}) \<and>
   propagate_singles (set_cell stale_grid 0 4 2) ([] @ [choose_msg 0 4 2]) =
     Some (True, stale_branch_grid, stale_branch_trace) \<and>
   bt_propagation 81 stale_branch_grid stale_branch_trace =
     Some (False, stale_branch_grid, stale_branch_trace) \<and>
   \<not> is_valid_move (set_cell stale_branch_grid 0 4 0) 0 4 7 \<and>
   solve_backtracking_propagation stale_grid [] =
     Some (None, stale_branch_trace @
       [''Backtrack r1c5 (reset from 2 to 0)'', ''MRV choose r1c5 try 7'']) \<and>
   (\<exists>s ms. solve_bruteforce stale_grid [] = Some (Some s, ms) \<and> is_complete_and_valid s)"
proof -
  obtain ok b' ms' where r: "bt_bruteforce max_depth stale_grid [] = Some (ok, b', ms')"
    "solve_bruteforce stale_grid [] = Some (if ok then Some b' else None, ms')"
    using solve_bruteforce_result [OF stale_facts(1), of "[]"] by blast
  have ok using bruteforce_complete(1) [OF stale_facts(1) classic_facts(4,5) stale_facts(4) r(1)] .
  then have run: "solve_bruteforce stale_grid [] = Some (Some b', ms')" using r(2) by simp
  from solve_bruteforce_sound [OF stale_facts(1) run] stale_facts(2,3)
  have "is_complete_and_valid b'" using full_consistent_valid by blast
  then have "\<exists>s ms. solve_bruteforce stale_grid [] = Some (Some s, ms) \<and> is_complete_and_valid s"
    using run by blast
  then show ?thesis
    using stale_facts(1,2,3,5) stale_has_completion stale_branch stale_recheck(1) stale_result
    by simp
qed

theorem recheck_rejects_candidate_witness:
  "solve_backtracking_propagation stale_grid [] \<noteq> None \<and>
   map_option fst (solve_backtracking_propagation stale_grid []) = Some None"
  using recheck_rejects_candidate by simp

text \<open>
  On the board on which a cell is selected, every one of its candidates is a legal
  placement: the check can only reject a value tried after a failed branch.
\<close>

lemma selected_candidates_legal:
  assumes "wf_board b" "select_mrv_cell b = Some (r, c, cand)" "v \<in> cand"
  shows "is_valid_move b r c v"
  using candidates_legal(4) [OF assms(1)] select_mrv_cell_Some [OF assms(2)] assms(3) by blast

subsection \<open>The solvers work on a copy\<close>

lemma old_kept_refl: "store_ok h \<Longrightarrow> old_kept h h"
  by (simp add: old_kept_def)

lemma old_kept_trans: "old_kept h h1 \<Longrightarrow> old_kept h1 h2 \<Longrightarrow> old_kept h h2"
  by (auto simp: old_kept_def)

lemma alloc_row_kept:
  assumes "store_ok h" "alloc_row h xs = (h1, a)"
  shows "old_kept h h1" "a = next_addr h" "next_addr h1 = Suc a" "rows h1 a = Some xs"
proof -
  have h1: "h1 = h\<lparr>rows := (rows h)(next_addr h \<mapsto> xs), next_addr := Suc (next_addr h)\<rparr>"
    and a: "a = next_addr h" using assms(2) by (auto simp: alloc_row_def)
  have r: "\<And>x. rows h x \<noteq> None \<Longrightarrow> x < next_addr h"
    and g: "\<And>x. grids h x \<noteq> None \<Longrightarrow> x < next_addr h"
    using assms(1) by (simp_all add: store_ok_def)
  have "store_ok h1"
    unfolding store_ok_def h1 using r g by (auto simp: less_Suc_eq)
  then show "old_kept h h1" unfolding old_kept_def by (simp add: h1)
  show "a = next_addr h" by fact
  show "next_addr h1 = Suc a" by (simp add: h1 a)
  show "rows h1 a = Some xs" by (simp add: h1 a)
qed

lemma copy_rows_kept:
  assumes "store_ok h" "list_all (\<lambda>a. rows h a \<noteq> None) as" "copy_rows h as = (h', as')"
  shows "old_kept h h' \<and> distinct as' \<and> list_all (\<lambda>a. next_addr h \<le> a \<and> a < next_addr h') as' \<and>
         map (\<lambda>a. the (rows h' a)) as' = map (\<lambda>a. the (rows h a)) as"
  using assms
proof (induction as arbitrary: h h' as')
  case Nil
  then show ?case by (simp add: old_kept_refl)
next
  case (Cons a as)
  obtain h1 a' where al: "alloc_row h (the (rows h a)) = (h1, a')" by (metis surj_pair)
  obtain h2 as2 where cp: "copy_rows h1 as = (h2, as2)" by (metis surj_pair)
  have res: "h' = h2" "as' = a' # as2" using Cons.prems(3) al cp by simp_all
  note k1 = alloc_row_kept [OF Cons.prems(1) al]
  have ok1: "store_ok h1" using k1(1) by (simp add: old_kept_def)
  have below: "\<And>x. rows h x \<noteq> None \<Longrightarrow> x < next_addr h"
    using Cons.prems(1) by (simp add: store_ok_def)
  have same1: "\<And>x. rows h x \<noteq> None \<Longrightarrow> rows h1 x = rows h x"
    using k1(1) below by (simp add: old_kept_def)
  have all1: "list_all (\<lambda>a. rows h1 a \<noteq> None) as"
    using Cons.prems(2) same1 by (simp add: list_all_iff)
  from Cons.IH [OF ok1 all1 cp]
  have ih: "old_kept h1 h2" "distinct as2" "list_all (\<lambda>a. next_addr h1 \<le> a \<and> a < next_addr h2) as2"
    "map (\<lambda>a. the (rows h2 a)) as2 = map (\<lambda>a. the (rows h1 a)) as" by simp_all
  have kept: "old_kept h h2" using k1(1) ih(1) by (rule old_kept_trans)
  have a'_lt: "a' < next_addr h1" using k1(2,3) by simp
  have "a' \<notin> set as2" using ih(3) k1(3) by (auto simp: list_all_iff)
  then have d: "distinct (a' # as2)" using ih(2) by simp
  have rng: "list_all (\<lambda>x. next_addr h \<le> x \<and> x < next_addr h2) (a' # as2)"
    using ih(3) ih(1) k1(2,3) by (auto simp: list_all_iff old_kept_def)
  have "rows h2 a' = Some (the (rows h a))"
    using ih(1) a'_lt k1(4) by (simp add: old_kept_def)
  moreover have "map (\<lambda>a. the (rows h1 a)) as = map (\<lambda>a. the (rows h a)) as"
    using Cons.prems(2) same1 by (simp add: list_all_iff)
  ultimately have "map (\<lambda>a. the (rows h2 a)) (a' # as2) = map (\<lambda>a. the (rows h a)) (a # as)"
    using ih(4) by simp
  then show ?case using kept d rng res by simp
qed


lemma deep_copy_h_kept:
  assumes ok: "store_ok h" and g: "grid_ok h ga" and dc: "deep_copy_h h ga = (h1, wa)"
  shows "old_kept h h1" "read_grid h1 wa = deep_copy (read_grid h ga)"
    "\<exists>as'. grids h1 wa = Some as' \<and> distinct as' \<and> list_all (\<lambda>a. next_addr h \<le> a) as' \<and>
       length as' = length (read_grid h ga)"
proof -
  obtain as where as: "grids h ga = Some as" "list_all (\<lambda>a. rows h a \<noteq> None) as"
    using g by (auto simp: grid_ok_def split: option.splits)
  obtain h0 as' where cp: "copy_rows h as = (h0, as')" by (metis surj_pair)
  have h1: "h1 = h0\<lparr>grids := (grids h0)(next_addr h0 \<mapsto> as'), next_addr := Suc (next_addr h0)\<rparr>"
    and wa: "wa = next_addr h0" using dc as(1) cp by (auto simp: deep_copy_h_def)
  from copy_rows_kept [OF ok as(2) cp]
  have k: "old_kept h h0" "distinct as'" "list_all (\<lambda>a. next_addr h \<le> a \<and> a < next_addr h0) as'"
    "map (\<lambda>a. the (rows h0 a)) as' = map (\<lambda>a. the (rows h a)) as" by simp_all
  have r0: "\<And>x. rows h0 x \<noteq> None \<Longrightarrow> x < next_addr h0"
    and g0: "\<And>x. grids h0 x \<noteq> None \<Longrightarrow> x < next_addr h0"
    using k(1) by (simp_all add: old_kept_def store_ok_def)
  have "store_ok h1" unfolding store_ok_def h1 using r0 g0 by (auto simp: less_Suc_eq)
  moreover have "\<forall>a<next_addr h0. rows h1 a = rows h0 a \<and> grids h1 a = grids h0 a"
    by (simp add: h1)
  ultimately have "old_kept h0 h1" by (simp add: old_kept_def h1)
  then show "old_kept h h1" using k(1) old_kept_trans by blast
  show "read_grid h1 wa = deep_copy (read_grid h ga)"
    using k(4) as(1) by (simp add: read_grid_def h1 wa deep_copy_def)
  have "length as' = length as" using k(4) by (metis length_map)
  then show "\<exists>as'. grids h1 wa = Some as' \<and> distinct as' \<and> list_all (\<lambda>a. next_addr h \<le> a) as' \<and>
       length as' = length (read_grid h ga)"
    using k(2,3) as(1) by (auto simp: h1 wa read_grid_def list_all_iff)
qed

lemma write_grid_kept:
  assumes "grids h1 wa = Some as'" "list_all (\<lambda>a. n \<le> a) as'"
  shows "\<forall>a<n. rows (write_grid h1 wa b) a = rows h1 a"
    "grids (write_grid h1 wa b) = grids h1" "next_addr (write_grid h1 wa b) = next_addr h1"
proof -
  have "a \<notin> set as'" if "a < n" for a using assms(2) that by (auto simp: list_all_iff)
  then have "map_of (zip as' b) a = None" if "a < n" for a
    using that by (metis set_zip_leftD map_of_SomeD not_None_eq)
  then show "\<forall>a<n. rows (write_grid h1 wa b) a = rows h1 a"
    using assms(1) by (simp add: write_grid_def map_add_def)
  show "grids (write_grid h1 wa b) = grids h1" "next_addr (write_grid h1 wa b) = next_addr h1"
    by (simp_all add: write_grid_def)
qed

lemma read_write_grid:
  assumes "grids h1 wa = Some as'" "distinct as'" "length as' = length b"
  shows "read_grid (write_grid h1 wa b) wa = b"
proof -
  have "map_of (zip as' b) (as' ! i) = Some (b ! i)" if "i < length b" for i
    using assms(2,3) that by (simp add: map_of_zip_nth)
  then have "the (rows (write_grid h1 wa b) (as' ! i)) = b ! i" if "i < length b" for i
    using that assms(1) by (simp add: write_grid_def map_add_def)
  then show ?thesis
    using assms(1,3) by (intro nth_equalityI) (simp_all add: read_grid_def write_grid_def)
qed

lemma read_grid_kept:
  assumes "store_ok h" "grid_ok h ga" "\<forall>a<next_addr h. rows h' a = rows h a \<and> grids h' a = grids h a"
  shows "read_grid h' ga = read_grid h ga"
proof -
  obtain as where as: "grids h ga = Some as" "list_all (\<lambda>a. rows h a \<noteq> None) as"
    using assms(2) by (auto simp: grid_ok_def split: option.splits)
  have "ga < next_addr h" using assms(1) as(1) by (simp add: store_ok_def)
  then have "grids h' ga = Some as" using assms(3) as(1) by simp
  moreover have "a < next_addr h" if "a \<in> set as" for a
    using assms(1) as(2) that by (simp add: store_ok_def list_all_iff)
  ultimately show ?thesis using assms(3) as(1) by (simp add: read_grid_def)
qed


text \<open>
  An assignment through an outer list whose rows are distinct objects is \<open>set_cell\<close> on
  its contents and touches no other row; it is the same store as writing the updated
  contents back, and writing twice is writing the last contents. So passing the contents
  of the working copy through the search and writing the final contents back is what
  the assignments in place do to the store.
\<close>

lemma set_cell_h_read:
  assumes as: "grids h ga = Some as" and d: "distinct as" and r: "r < length as"
  shows "read_grid (set_cell_h h ga r c v) ga = set_cell (read_grid h ga) r c v"
    "\<forall>a. a \<noteq> as ! r \<longrightarrow> rows (set_cell_h h ga r c v) a = rows h a"
    "grids (set_cell_h h ga r c v) = grids h"
proof -
  let ?h = "set_cell_h h ga r c v"
  have rows: "rows ?h = (rows h)(as ! r \<mapsto> (the (rows h (as ! r)))[c := v])"
    and grids: "grids ?h = grids h"
    using as by (simp_all add: set_cell_h_def Let_def)
  show "grids ?h = grids h" by fact
  show "\<forall>a. a \<noteq> as ! r \<longrightarrow> rows ?h a = rows h a" by (simp add: rows)
  show "read_grid ?h ga = set_cell (read_grid h ga) r c v"
  proof (rule nth_equalityI)
    show "length (read_grid ?h ga) = length (set_cell (read_grid h ga) r c v)"
      using as by (simp add: read_grid_def grids set_cell_def)
    fix i assume "i < length (read_grid ?h ga)"
    then have i: "i < length as" using as by (simp add: read_grid_def grids)
    have "as ! i = as ! r \<longleftrightarrow> i = r" using d i r by (simp add: nth_eq_iff_index_eq)
    then show "read_grid ?h ga ! i = set_cell (read_grid h ga) r c v ! i"
      using as i r by (simp add: read_grid_def grids rows set_cell_def nth_list_update)
  qed
qed

lemma set_cell_h_write:
  assumes as: "grids h ga = Some as" and d: "distinct as" and r: "r < length as"
    and al: "list_all (\<lambda>a. rows h a \<noteq> None) as"
  shows "set_cell_h h ga r c v = write_grid h ga (set_cell (read_grid h ga) r c v)"
proof -
  let ?b = "set_cell (read_grid h ga) r c v"
  have len: "length ?b = length as" using as by (simp add: set_cell_def read_grid_def)
  have nth: "?b ! i = (if i = r then (the (rows h (as ! r)))[c := v] else the (rows h (as ! i)))"
    if "i < length as" for i
    using that as r by (simp add: set_cell_def read_grid_def nth_list_update)
  have "(rows h ++ map_of (zip as ?b)) a = ((rows h)(as ! r \<mapsto> (the (rows h (as ! r)))[c := v])) a" for a
  proof (cases "a \<in> set as")
    case False
    then have "map_of (zip as ?b) a = None"
      by (metis set_zip_leftD map_of_SomeD not_None_eq)
    moreover have "a \<noteq> as ! r" using False r by auto
    ultimately show ?thesis by (simp add: map_add_def)
  next
    case True
    then obtain i where i: "i < length as" "a = as ! i" by (metis in_set_conv_nth)
    have m: "map_of (zip as ?b) a = Some (?b ! i)"
      using d len i by (simp add: map_of_zip_nth)
    have eq: "as ! i = as ! r \<longleftrightarrow> i = r" using d i r by (simp add: nth_eq_iff_index_eq)
    have "rows h a \<noteq> None" using al True by (simp add: list_all_iff)
    then have "rows h a = Some (the (rows h a))" by simp
    then show ?thesis using m nth [OF i(1)] i eq by (auto simp: map_add_def)
  qed
  then have "rows h ++ map_of (zip as ?b) = (rows h)(as ! r \<mapsto> (the (rows h (as ! r)))[c := v])"
    by (rule ext)
  then show ?thesis using as by (simp add: set_cell_h_def write_grid_def Let_def)
qed

lemma write_grid_write:
  assumes "grids h ga = Some as" "length b = length as" "length b' = length as"
  shows "write_grid (write_grid h ga b) ga b' = write_grid h ga b'"
proof -
  have dom: "dom (map_of (zip as b)) = dom (map_of (zip as b'))"
    using assms(2,3) by simp
  have "(rows h ++ map_of (zip as b) ++ map_of (zip as b')) a = (rows h ++ map_of (zip as b')) a" for a
  proof (cases "map_of (zip as b') a")
    case None
    then have "map_of (zip as b) a = None" using dom by (metis domIff)
    then show ?thesis using None by (simp add: map_add_def)
  next
    case (Some x)
    then show ?thesis by (simp add: map_add_def)
  qed
  then have "rows h ++ map_of (zip as b) ++ map_of (zip as b') = rows h ++ map_of (zip as b')"
    by (rule ext)
  then show ?thesis using assms(1) by (simp add: write_grid_def)
qed

lemma solve_h_frame:
  assumes ok: "store_ok h" and g: "grid_ok h ga" and dc: "deep_copy_h h ga = (h1, wa)"
    and len: "length b' = length (read_grid h ga)"
  shows "read_grid (write_grid h1 wa b') ga = read_grid h ga"
    "\<forall>a<next_addr h. rows (write_grid h1 wa b') a = rows h a \<and> grids (write_grid h1 wa b') a = grids h a"
    "read_grid (write_grid h1 wa b') wa = b'"
proof -
  note k = deep_copy_h_kept [OF ok g dc]
  obtain as' where as': "grids h1 wa = Some as'" "distinct as'" "list_all (\<lambda>a. next_addr h \<le> a) as'"
    "length as' = length (read_grid h ga)" using k(3) by blast
  note w = write_grid_kept [OF as'(1,3), of b']
  show frame: "\<forall>a<next_addr h. rows (write_grid h1 wa b') a = rows h a \<and>
      grids (write_grid h1 wa b') a = grids h a"
    using w k(1) by (simp add: old_kept_def)
  show "read_grid (write_grid h1 wa b') ga = read_grid h ga"
    using read_grid_kept [OF ok g frame] .
  show "read_grid (write_grid h1 wa b') wa = b'"
    using read_write_grid [OF as'(1,2)] as'(4) len by simp
qed

lemma wf_board_length: "wf_board b \<Longrightarrow> length b = 9"
  by (simp add: wf_board_def)

lemma solve_bruteforce_h_result:
  assumes ok: "store_ok h" and g: "grid_ok h ga" and wf: "wf_board (read_grid h ga)"
  shows "\<exists>h' res ms'. solve_bruteforce_h h ga ms = Some (h', res, ms') \<and>
           read_grid h' ga = read_grid h ga \<and>
           (\<forall>a<next_addr h. rows h' a = rows h a \<and> grids h' a = grids h a) \<and>
           solve_bruteforce (read_grid h ga) ms = Some (map_option (read_grid h') res, ms')"
proof -
  obtain h1 wa where dc: "deep_copy_h h ga = (h1, wa)" by (metis surj_pair)
  have rd: "read_grid h1 wa = read_grid h ga"
    using deep_copy_h_kept(2) [OF ok g dc] by (simp add: deep_copy_id)
  obtain okb b' ms' where r: "bt_bruteforce max_depth (read_grid h ga) ms = Some (okb, b', ms')"
    "bt_post (read_grid h ga) okb b'"
    "solve_bruteforce (read_grid h ga) ms = Some (if okb then Some b' else None, ms')"
    using solve_bruteforce_result [OF wf, of ms] by blast
  have "wf_board b'" using r(2) wf by (simp add: bt_post_def split: if_splits)
  then have len: "length b' = length (read_grid h ga)" using wf by (simp add: wf_board_length)
  note f = solve_h_frame [OF ok g dc len]
  have "solve_bruteforce_h h ga ms =
      Some (write_grid h1 wa b', if okb then Some wa else None, ms')"
    using dc rd r(1) by (simp add: solve_bruteforce_h_def)
  then show ?thesis using f r(3) by simp
qed

lemma solve_backtracking_propagation_h_result:
  assumes ok: "store_ok h" and g: "grid_ok h ga" and wf: "wf_board (read_grid h ga)"
  shows "\<exists>h' res ms'. solve_backtracking_propagation_h h ga ms = Some (h', res, ms') \<and>
           read_grid h' ga = read_grid h ga \<and>
           (\<forall>a<next_addr h. rows h' a = rows h a \<and> grids h' a = grids h a) \<and>
           solve_backtracking_propagation (read_grid h ga) ms =
             Some (map_option (read_grid h') res, ms')"
proof -
  obtain h1 wa where dc: "deep_copy_h h ga = (h1, wa)" by (metis surj_pair)
  have rd: "read_grid h1 wa = read_grid h ga"
    using deep_copy_h_kept(2) [OF ok g dc] by (simp add: deep_copy_id)
  obtain ch b1 ms1 where pr: "propagate_singles (read_grid h ga) ms = Some (ch, b1, ms1)"
    and r1: "refines (read_grid h ga) b1"
    using propagate_singles_result [OF wf, of ms] by blast
  have wf1: "wf_board b1" using r1 by (rule refines_wf)
  have "count_empty b1 < max_depth" using count_empty_le [of b1] by (simp add: max_depth_def)
  then have "bt_propagation max_depth b1 ms1 \<noteq> None" using propagation_returns(1) [OF wf1] by blast
  then obtain okb b' ms' where r: "bt_propagation max_depth b1 ms1 = Some (okb, b', ms')"
    by (metis not_None_eq prod_cases3)
  have "refines b1 b'" using propagation_post(1) [OF wf1 r] by simp
  then have "wf_board b'" by (rule refines_wf)
  then have len: "length b' = length (read_grid h ga)" using wf by (simp add: wf_board_length)
  note f = solve_h_frame [OF ok g dc len]
  have "solve_backtracking_propagation_h h ga ms =
      Some (write_grid h1 wa b', if okb then Some wa else None, ms')"
    using dc rd pr r by (simp add: solve_backtracking_propagation_h_def)
  moreover have "solve_backtracking_propagation (read_grid h ga) ms =
      Some (if okb then Some b' else None, ms')"
    using pr r by (simp add: solve_backtracking_propagation_def deep_copy_id)
  ultimately show ?thesis using f by simp
qed

text \<open>
  C6. For a caller's 9x9 grid at address \<open>ga\<close> both solvers return, and in the store
  they leave, the caller's grid reads as before the call; indeed every row and every
  outer list that existed before the call is unchanged, whether the search succeeded
  or failed.
\<close>

theorem solvers_keep_caller_grid:
  assumes ok: "store_ok h" and g: "grid_ok h ga" and wf: "wf_board (read_grid h ga)"
  shows "(\<exists>h' res ms'. solve_bruteforce_h h ga ms = Some (h', res, ms') \<and>
            read_grid h' ga = read_grid h ga \<and>
            (\<forall>a<next_addr h. rows h' a = rows h a \<and> grids h' a = grids h a)) \<and>
         (\<exists>h' res ms'. solve_backtracking_propagation_h h ga ms = Some (h', res, ms') \<and>
            read_grid h' ga = read_grid h ga \<and>
            (\<forall>a<next_addr h. rows h' a = rows h a \<and> grids h' a = grids h a))"
  using solve_bruteforce_h_result [OF assms, of ms]
    solve_backtracking_propagation_h_result [OF assms, of ms] by blast

lemma store_of_facts:
  assumes "length g = 9"
  shows "store_ok (store_of g)" "grid_ok (store_of g) 9" "read_grid (store_of g) 9 = g"
proof -
  have dom: "map_of (zip [0..<9] g) a \<noteq> None \<longleftrightarrow> a < 9" for a
  proof -
    have "dom (map_of (zip [0..<9] g)) = set [0..<9]"
      using assms by (intro dom_map_of_zip) simp
    then show ?thesis by (metis domIff atLeastLessThan_iff set_upt zero_le)
  qed
  show "store_ok (store_of g)"
    using dom by (auto simp: store_ok_def store_of_def simp del: upt_rec_numeral)
  show "grid_ok (store_of g) 9"
    using dom by (simp add: grid_ok_def store_of_def list_all_iff del: upt_rec_numeral)
  have "the (map_of (zip [0..<9] g) i) = g ! i" if "i < 9" for i
    using assms that map_of_zip_nth [of "[0..<9]" g i] by (simp del: upt_rec_numeral)
  then show "read_grid (store_of g) 9 = g"
    using assms by (intro nth_equalityI) (simp_all add: read_grid_def store_of_def del: upt_rec_numeral)
qed

theorem solvers_keep_caller_grid_witness:
  "store_ok (store_of classic_puzzle) \<and> grid_ok (store_of classic_puzzle) 9 \<and>
   wf_board (read_grid (store_of classic_puzzle) 9) \<and>
   (\<exists>h' res ms'. solve_bruteforce_h (store_of classic_puzzle) 9 [] = Some (h', res, ms') \<and>
      read_grid h' 9 = classic_puzzle) \<and>
   (\<exists>h' res ms'. solve_backtracking_propagation_h (store_of classic_puzzle) 9 [] = Some (h', res, ms') \<and>
      read_grid h' 9 = classic_puzzle)"
proof -
  have len: "length classic_puzzle = 9" by (simp add: classic_puzzle_def)
  note s = store_of_facts [OF len]
  have wf: "wf_board (read_grid (store_of classic_puzzle) 9)" using s(3) classic_facts(1) by simp
  from solvers_keep_caller_grid [OF s(1,2) wf, of "[]"] s wf show ?thesis by auto
qed

end
